theory Spec2Isabelle
  imports Main "HOL-Library.Multiset" "HOL-Library.List_Lexorder"
begin

section \<open>Data model of untangle.py\<close>

text \<open>
  An entry is the Python tuple \<open>(identifier, value)\<close>; a transaction is the Python list
  \<open>[identifier, inputs, outputs, fee]\<close>, read by the code as \<open>transaction[1]\<close>,
  \<open>transaction[2]\<close> and \<open>transaction[3]\<close>. Python integers are unbounded, hence \<open>int\<close>.
\<close>

type_synonym entry = "string \<times> int"

record transaction =
  tx_id :: string
  inputs :: "entry list"
  outputs :: "entry list"
  fee :: int

datatype error = IndexError | KeyError | ValueError

section \<open>get_codewords\<close>

text \<open>
  The inner loop \<open>while startIndex >= 0\<close> of \<open>get_codewords\<close>. Its last argument is
  \<open>startIndex + 1\<close>, so that \<open>0\<close> is the exit of the loop by its guard (reached only for
  \<open>n = 0\<close>) and \<open>Suc s\<close> is one iteration at \<open>startIndex = s\<close>. The slice
  \<open>codeword[0 : startIndex]\<close> is \<open>take s codeword\<close>. The loop ends in one of three ways:
  by \<open>return codewords\<close>, by \<open>break\<close> with an updated codeword, or by its guard.
  The codeword always has length \<open>n\<close> and \<open>startIndex < n\<close>, so \<open>codeword[startIndex]\<close>
  never raises.
\<close>

datatype scan = Return | Break "int list" | Exhausted "int list"

fun inner_loop :: "int \<Rightarrow> int list \<Rightarrow> nat \<Rightarrow> scan" where
  "inner_loop k codeword 0 = Exhausted codeword"
| "inner_loop k codeword (Suc startIndex) =
     (if take startIndex codeword = [] then Return
      else
        let maxValue = Max (set (take startIndex codeword));
            codewordAtStartIndex = codeword ! startIndex
        in if maxValue > k \<or> codewordAtStartIndex > maxValue \<or> codewordAtStartIndex \<ge> k
           then inner_loop k (codeword[startIndex := 1]) startIndex
           else Break (codeword[startIndex := codewordAtStartIndex + 1]))"

text \<open>
  The outer \<open>while True\<close> loop: append a copy of the codeword, then run the inner loop.
  It may run forever, so it is a partial function: \<open>None\<close> is "does not return".
\<close>

partial_function (option) codewords_loop ::
  "nat \<Rightarrow> int \<Rightarrow> int list list \<Rightarrow> int list \<Rightarrow> int list list option" where
  "codewords_loop n k codewords codeword =
     (case inner_loop k codeword n of
        Return \<Rightarrow> Some (codewords @ [codeword])
      | Break codeword' \<Rightarrow> codewords_loop n k (codewords @ [codeword]) codeword'
      | Exhausted codeword' \<Rightarrow> codewords_loop n k (codewords @ [codeword]) codeword')"

definition get_codewords :: "nat \<Rightarrow> int \<Rightarrow> int list list option" where
  "get_codewords n k = codewords_loop n k [] (replicate n 1)"

text \<open>Evaluation of the loop on concrete inputs unfolds its recursion equation.\<close>

declare codewords_loop.simps [code]

section \<open>get_partitions\<close>

text \<open>
  Python's list indexing by an integer: a negative index counts from the end, an index
  outside \<open>[-len, len)\<close> raises \<open>IndexError\<close>.
\<close>

definition py_index :: "nat \<Rightarrow> int \<Rightarrow> error + nat" where
  "py_index len i =
     (let j = (if i < 0 then int len + i else i)
      in if 0 \<le> j \<and> j < int len then Inr (nat j) else Inl IndexError)"

text \<open>
  The loop \<open>for i in range(len(codeword))\<close> of \<open>get_partitions\<close>, which appends
  \<open>list[i]\<close> to the subset \<open>partition[codeword[i] - 1]\<close>.
\<close>

fun place :: "'a list \<Rightarrow> int list \<Rightarrow> nat list \<Rightarrow> 'a list list \<Rightarrow> error + 'a list list" where
  "place lst codeword [] part = Inr part"
| "place lst codeword (i # rest) part =
     (if length lst \<le> i then Inl IndexError
      else
        let element = lst ! i;
            subset = codeword ! i
        in case py_index (length part) (subset - 1) of
             Inl e \<Rightarrow> Inl e
           | Inr j \<Rightarrow> place lst codeword rest (part[j := part ! j @ [element]]))"

text \<open>
  The body of the loop over the codewords: \<open>max(codeword)\<close> raises \<open>ValueError\<close> on an
  empty codeword; \<open>range(num_subsets)\<close> is empty for \<open>num_subsets \<le> 0\<close>.
\<close>

definition make_partition :: "'a list \<Rightarrow> int list \<Rightarrow> error + 'a list list" where
  "make_partition lst codeword =
     (if codeword = [] then Inl ValueError
      else
        let num_subsets = Max (set codeword)
        in place lst codeword [0..<length codeword] (replicate (nat num_subsets) []))"

fun partitions_loop ::
  "'a list \<Rightarrow> int list list \<Rightarrow> 'a list list list \<Rightarrow> error + 'a list list list" where
  "partitions_loop lst [] partitions = Inr partitions"
| "partitions_loop lst (codeword # rest) partitions =
     (case make_partition lst codeword of
        Inl e \<Rightarrow> Inl e
      | Inr part \<Rightarrow> partitions_loop lst rest (partitions @ [part]))"

text \<open>
  \<open>None\<close>: \<open>get_codewords\<close> does not return; \<open>Some (Inl e)\<close>: an exception is raised;
  \<open>Some (Inr partitions)\<close>: the list returned.
\<close>

definition get_partitions :: "'a list \<Rightarrow> int \<Rightarrow> (error + 'a list list list) option" where
  "get_partitions lst max_size =
     (case get_codewords (length lst) max_size of
        None \<Rightarrow> None
      | Some codewords \<Rightarrow> Some (partitions_loop lst codewords []))"

section \<open>group_partitions_by_size\<close>

definition group_partitions_by_size ::
  "'a list list list \<Rightarrow> (nat \<rightharpoonup> 'a list list list)" where
  "group_partitions_by_size partitions =
     foldl (\<lambda>partition_dict part.
              let sz = length part
              in case partition_dict sz of
                   Some bucket \<Rightarrow> partition_dict(sz \<mapsto> bucket @ [part])
                 | None \<Rightarrow> partition_dict(sz \<mapsto> [part]))
           Map.empty partitions"

section \<open>is_connectable\<close>

definition is_connectable :: "entry list \<Rightarrow> entry list \<Rightarrow> int \<Rightarrow> bool" where
  "is_connectable input_subset output_subset transaction_fee =
     (let input_sum = sum_list (map snd input_subset);
          output_sum = sum_list (map snd output_subset);
          a = output_sum + transaction_fee
      in a \<ge> input_sum \<and> input_sum \<ge> output_sum)"

section \<open>get_acceptable_connections\<close>

text \<open>
  \<open>itertools.permutations(xs, len(xs))\<close>: all orderings of the positions of \<open>xs\<close>, in
  lexicographic order of the positions.
\<close>

fun permutations :: "'a list \<Rightarrow> 'a list list" where
  "permutations [] = [[]]"
| "permutations (x # xs) =
     concat (map (\<lambda>i. map ((#) ((x # xs) ! i))
                          (permutations (take i (x # xs) @ drop (Suc i) (x # xs))))
                 [0..<length (x # xs)])"

type_synonym partition = "entry list list"
type_synonym acceptable_partition = "partition \<times> partition"

text \<open>
  The loop \<open>for i in range(partition_size)\<close> with its \<open>break\<close>: the value is the flag
  \<open>acceptable\<close>; reading a subset beyond either partition raises \<open>IndexError\<close>.
\<close>

fun pairs_loop :: "partition \<Rightarrow> partition \<Rightarrow> int \<Rightarrow> nat list \<Rightarrow> error + bool" where
  "pairs_loop input_partition output_ordering transaction_fee [] = Inr True"
| "pairs_loop input_partition output_ordering transaction_fee (i # rest) =
     (if length input_partition \<le> i \<or> length output_ordering \<le> i then Inl IndexError
      else
        let pair_connectable =
              is_connectable (input_partition ! i) (output_ordering ! i) transaction_fee
        in if \<not> pair_connectable then Inr False
           else pairs_loop input_partition output_ordering transaction_fee rest)"

fun orderings_loop ::
  "nat \<Rightarrow> partition \<Rightarrow> int \<Rightarrow> partition list \<Rightarrow> acceptable_partition list \<Rightarrow>
   error + acceptable_partition list" where
  "orderings_loop partition_size input_partition transaction_fee [] acceptable_connections =
     Inr acceptable_connections"
| "orderings_loop partition_size input_partition transaction_fee (output_ordering # rest)
       acceptable_connections =
     (case pairs_loop input_partition output_ordering transaction_fee [0..<partition_size] of
        Inl e \<Rightarrow> Inl e
      | Inr acceptable \<Rightarrow>
          orderings_loop partition_size input_partition transaction_fee rest
            (if acceptable then acceptable_connections @ [(input_partition, output_ordering)]
             else acceptable_connections))"

definition get_acceptable_connections ::
  "nat \<Rightarrow> partition \<Rightarrow> partition \<Rightarrow> int \<Rightarrow> error + acceptable_partition list" where
  "get_acceptable_connections partition_size input_partition output_partition transaction_fee =
     (let output_orders = permutations output_partition
      in orderings_loop partition_size input_partition transaction_fee output_orders [])"

section \<open>get_acceptable_partitions\<close>

text \<open>
  The three nested loops. A size that is no key of a dictionary raises \<open>KeyError\<close>;
  \<open>acceptable_partitions\<close> is threaded through as the accumulator.
\<close>

fun outputs_loop ::
  "nat \<Rightarrow> partition \<Rightarrow> int \<Rightarrow> partition list \<Rightarrow> acceptable_partition list \<Rightarrow>
   error + acceptable_partition list" where
  "outputs_loop i input_partition transaction_fee [] acceptable_partitions =
     Inr acceptable_partitions"
| "outputs_loop i input_partition transaction_fee (output_partition # rest)
       acceptable_partitions =
     (case get_acceptable_connections i input_partition output_partition transaction_fee of
        Inl e \<Rightarrow> Inl e
      | Inr connections \<Rightarrow>
          outputs_loop i input_partition transaction_fee rest
            (acceptable_partitions @ connections))"

fun inputs_loop ::
  "nat \<Rightarrow> (nat \<rightharpoonup> partition list) \<Rightarrow> int \<Rightarrow> partition list \<Rightarrow>
   acceptable_partition list \<Rightarrow> error + acceptable_partition list" where
  "inputs_loop i output_partitions transaction_fee [] acceptable_partitions =
     Inr acceptable_partitions"
| "inputs_loop i output_partitions transaction_fee (input_partition # rest)
       acceptable_partitions =
     (case output_partitions i of
        None \<Rightarrow> Inl KeyError
      | Some bucket \<Rightarrow>
          (case outputs_loop i input_partition transaction_fee bucket acceptable_partitions of
             Inl e \<Rightarrow> Inl e
           | Inr acceptable_partitions' \<Rightarrow>
               inputs_loop i output_partitions transaction_fee rest acceptable_partitions'))"

fun sizes_loop ::
  "(nat \<rightharpoonup> partition list) \<Rightarrow> (nat \<rightharpoonup> partition list) \<Rightarrow> int \<Rightarrow> nat list \<Rightarrow>
   acceptable_partition list \<Rightarrow> error + acceptable_partition list" where
  "sizes_loop input_partitions output_partitions transaction_fee [] acceptable_partitions =
     Inr acceptable_partitions"
| "sizes_loop input_partitions output_partitions transaction_fee (i # rest)
       acceptable_partitions =
     (case input_partitions i of
        None \<Rightarrow> Inl KeyError
      | Some bucket \<Rightarrow>
          (case inputs_loop i output_partitions transaction_fee bucket acceptable_partitions of
             Inl e \<Rightarrow> Inl e
           | Inr acceptable_partitions' \<Rightarrow>
               sizes_loop input_partitions output_partitions transaction_fee rest
                 acceptable_partitions'))"

definition get_acceptable_partitions ::
  "transaction \<Rightarrow> (error + acceptable_partition list) option" where
  "get_acceptable_partitions transaction =
     (let ins = inputs transaction;
          outs = outputs transaction;
          transaction_fee = fee transaction;
          num_inputs = length ins;
          num_outputs = length outs;
          max_partition_size = min num_inputs num_outputs
      in case get_partitions ins (int max_partition_size) of
           None \<Rightarrow> None
         | Some (Inl e) \<Rightarrow> Some (Inl e)
         | Some (Inr input_partitions) \<Rightarrow>
             (case get_partitions outs (int max_partition_size) of
                None \<Rightarrow> None
              | Some (Inl e) \<Rightarrow> Some (Inl e)
              | Some (Inr output_partitions) \<Rightarrow>
                  Some (sizes_loop (group_partitions_by_size input_partitions)
                          (group_partitions_by_size output_partitions)
                          transaction_fee [2..<max_partition_size + 1] [])))"

section \<open>The simplifier\<close>

text \<open>The key function \<open>sort_key\<close> of the source: the value of an entry.\<close>

definition sort_key_value :: "entry \<Rightarrow> int" where
  "sort_key_value input = snd input"

text \<open>
  The scan of \<open>remove_small_inputs\<close> over the sorted inputs, with its \<open>break\<close>; the
  result is \<open>(inputs_to_remove, transaction_fee)\<close>.
\<close>

fun mark_inputs :: "entry list \<Rightarrow> int \<Rightarrow> entry list \<Rightarrow> entry list \<times> int" where
  "mark_inputs [] transaction_fee inputs_to_remove = (inputs_to_remove, transaction_fee)"
| "mark_inputs (input # rest) transaction_fee inputs_to_remove =
     (if snd input \<le> transaction_fee
      then mark_inputs rest (transaction_fee - snd input) (inputs_to_remove @ [input])
      else (inputs_to_remove, transaction_fee))"

text \<open>
  \<open>remove_small_inputs\<close> updates the transaction in place and returns that same object:
  the value below is the transaction after the call. Python's \<open>sort\<close> is stable, as
  \<open>sort_key\<close> is; \<open>not x in inputs_to_remove\<close> compares entries by value.
\<close>

definition remove_small_inputs :: "transaction \<Rightarrow> transaction" where
  "remove_small_inputs transaction =
     (let ins = sort_key sort_key_value (inputs transaction);
          (inputs_to_remove, transaction_fee) = mark_inputs ins (fee transaction) []
      in transaction\<lparr>inputs := filter (\<lambda>x. x \<notin> set inputs_to_remove) ins,
                      fee := transaction_fee\<rparr>)"

text \<open>
  The loop \<open>for i in range(1, partition_size)\<close> of \<open>remove_small_outputs\<close>, which keeps
  the smallest flow of an acceptable partition.
\<close>

fun min_flow_loop :: "partition \<Rightarrow> partition \<Rightarrow> nat list \<Rightarrow> int \<Rightarrow> error + int" where
  "min_flow_loop input_partition output_partition [] min_flow = Inr min_flow"
| "min_flow_loop input_partition output_partition (i # rest) min_flow =
     (if length input_partition \<le> i \<or> length output_partition \<le> i then Inl IndexError
      else
        let flow = sum_list (map snd (input_partition ! i))
                     - sum_list (map snd (output_partition ! i))
        in min_flow_loop input_partition output_partition rest
             (if flow < min_flow then flow else min_flow))"

fun delta_loop :: "acceptable_partition list \<Rightarrow> int \<Rightarrow> error + int" where
  "delta_loop [] delta = Inr delta"
| "delta_loop ((input_partition, output_partition) # rest) delta =
     (if input_partition = [] \<or> output_partition = [] then Inl IndexError
      else
        case min_flow_loop input_partition output_partition [1..<length input_partition]
               (sum_list (map snd (input_partition ! 0))
                  - sum_list (map snd (output_partition ! 0))) of
          Inl e \<Rightarrow> Inl e
        | Inr min_flow \<Rightarrow> delta_loop rest (if min_flow > delta then min_flow else delta))"

text \<open>The scan of \<open>remove_small_outputs\<close> over the sorted outputs; it has no \<open>break\<close>.\<close>

fun mark_outputs :: "entry list \<Rightarrow> int \<Rightarrow> int \<Rightarrow> entry list \<Rightarrow> entry list \<times> int" where
  "mark_outputs [] delta transaction_fee outputs_to_remove =
     (outputs_to_remove, transaction_fee)"
| "mark_outputs (output # rest) delta transaction_fee outputs_to_remove =
     (if snd output \<le> delta
      then mark_outputs rest delta (transaction_fee + snd output) (outputs_to_remove @ [output])
      else mark_outputs rest delta transaction_fee outputs_to_remove)"

definition remove_small_outputs :: "transaction \<Rightarrow> (error + transaction) option" where
  "remove_small_outputs transaction =
     (case get_acceptable_partitions transaction of
        None \<Rightarrow> None
      | Some (Inl e) \<Rightarrow> Some (Inl e)
      | Some (Inr acceptable_partitions) \<Rightarrow>
          (case delta_loop acceptable_partitions 0 of
             Inl e \<Rightarrow> Some (Inl e)
           | Inr delta \<Rightarrow>
               let outs = sort_key sort_key_value (outputs transaction);
                   (outputs_to_remove, transaction_fee) =
                     mark_outputs outs delta (fee transaction) []
               in Some (Inr (transaction\<lparr>outputs := filter (\<lambda>x. x \<notin> set outputs_to_remove) outs,
                                           fee := transaction_fee\<rparr>))))"

text \<open>
  What a call hands back to its caller: Python's \<open>None\<close> (a function that ends without
  \<open>return\<close>) or a value.
\<close>

datatype 'a returned = ReturnsNone | Returns 'a

text \<open>
  \<open>simplify\<close> rebinds its local name \<open>transaction\<close> twice and ends without \<open>return\<close>.
  Its result here is the pair of what the call returns and of the caller's transaction
  object after the call.
\<close>

definition simplify :: "transaction \<Rightarrow> (error + transaction returned \<times> transaction) option" where
  "simplify transaction =
     (case remove_small_outputs (remove_small_inputs transaction) of
        None \<Rightarrow> None
      | Some (Inl e) \<Rightarrow> Some (Inl e)
      | Some (Inr transaction') \<Rightarrow> Some (Inr (ReturnsNone, transaction')))"

text \<open>
  \<open>untangle\<close> drops what \<open>simplify\<close> returns and goes on with its own transaction
  object, which \<open>simplify\<close> has updated in place.
\<close>

definition untangle :: "transaction \<Rightarrow> (error + acceptable_partition list) option" where
  "untangle transaction =
     (case simplify transaction of
        None \<Rightarrow> None
      | Some (Inl e) \<Rightarrow> Some (Inl e)
      | Some (Inr (_, transaction')) \<Rightarrow> get_acceptable_partitions transaction')"

section \<open>Derived notions and concrete transactions\<close>

text \<open>The data model's invariant: the inputs pay for the outputs and the fee.\<close>

definition balanced :: "transaction \<Rightarrow> bool" where
  "balanced transaction \<longleftrightarrow>
     sum_list (map snd (inputs transaction)) =
       sum_list (map snd (outputs transaction)) + fee transaction"

text \<open>
  The list \<open>inputs_to_remove\<close> that the scan of \<open>remove_small_inputs\<close> builds, and the
  list \<open>outputs_to_remove\<close> that the scan of \<open>remove_small_outputs\<close> builds for a
  given \<open>delta\<close>.
\<close>

definition marked_inputs :: "transaction \<Rightarrow> entry list" where
  "marked_inputs transaction =
     fst (mark_inputs (sort_key sort_key_value (inputs transaction)) (fee transaction) [])"

definition marked_outputs :: "int \<Rightarrow> transaction \<Rightarrow> entry list" where
  "marked_outputs delta transaction =
     fst (mark_outputs (sort_key sort_key_value (outputs transaction)) delta
            (fee transaction) [])"

text \<open>
  The test of the inner loop of \<open>get_codewords\<close> at position \<open>s\<close>, negated: the
  position is incremented (\<open>else\<close> branch) rather than reset to \<open>1\<close>.
\<close>

definition can_inc :: "int \<Rightarrow> int list \<Rightarrow> nat \<Rightarrow> bool" where
  "can_inc k codeword s \<longleftrightarrow>
     \<not> (Max (set (take s codeword)) > k \<or> codeword ! s > Max (set (take s codeword))
        \<or> codeword ! s \<ge> k)"

text \<open>
  Restricted growth strings bounded by \<open>k\<close>, read from the left with the running
  maximum \<open>m\<close> of what came before: each entry is at least \<open>1\<close>, at most one more than
  that maximum, and at most \<open>k\<close>. With \<open>m = 0\<close> the first entry is \<open>1\<close>.
\<close>

fun rgs_from :: "int \<Rightarrow> int \<Rightarrow> int list \<Rightarrow> bool" where
  "rgs_from k m [] = True"
| "rgs_from k m (c # cs) = (1 \<le> c \<and> c \<le> m + 1 \<and> c \<le> k \<and> rgs_from k (max m c) cs)"

text \<open>
  Stirling numbers of the second kind and the Bell numbers, their row sums: the number
  of partitions of an \<open>n\<close>-element set.
\<close>

fun stirling2 :: "nat \<Rightarrow> nat \<Rightarrow> nat" where
  "stirling2 0 0 = 1"
| "stirling2 0 (Suc k) = 0"
| "stirling2 (Suc n) 0 = 0"
| "stirling2 (Suc n) (Suc k) = Suc k * stirling2 n (Suc k) + stirling2 n k"

definition bell :: "nat \<Rightarrow> nat" where
  "bell n = (\<Sum>k\<le>n. stirling2 n k)"

text \<open>
  The number of ways to extend, by \<open>r\<close> more entries, a restricted growth string whose
  maximum so far is \<open>m\<close>, when the bound does not bite.
\<close>

fun rgs_count :: "nat \<Rightarrow> nat \<Rightarrow> nat" where
  "rgs_count 0 m = 1"
| "rgs_count (Suc r) m = m * rgs_count r m + rgs_count r (Suc m)"


text \<open>
  An acceptable partition is within the fee when its two partitions have as many subsets
  and the flow of every index-aligned pair of subsets lies between \<open>0\<close> and the fee.
\<close>

definition within_fee :: "int \<Rightarrow> acceptable_partition \<Rightarrow> bool" where
  "within_fee f ap \<longleftrightarrow>
     length (fst ap) = length (snd ap) \<and>
     (\<forall>i < length (fst ap).
        0 \<le> sum_list (map snd (fst ap ! i)) - sum_list (map snd (snd ap ! i)) \<and>
        sum_list (map snd (fst ap ! i)) - sum_list (map snd (snd ap ! i)) \<le> f)"

text \<open>
  An acceptable partition is paired when its two partitions have as many subsets and
  at least one: \<open>remove_small_outputs\<close> then reads its subsets without \<open>IndexError\<close>.
\<close>

definition paired :: "acceptable_partition \<Rightarrow> bool" where
  "paired ap \<longleftrightarrow> length (fst ap) = length (snd ap) \<and> fst ap \<noteq> []"

text \<open>The transaction \<open>figure6\<close> of the source's \<open>example_transactions\<close>.\<close>

definition figure6 :: transaction where
  "figure6 = \<lparr>tx_id = ''t0'', inputs = [(''a1'', 20), (''a2'', 10)],
               outputs = [(''b1'', 19), (''b2'', 7), (''b3'', 3)], fee = 1\<rparr>"

text \<open>Two transactions in which one address occurs twice with the same value.\<close>

definition twin_inputs :: transaction where
  "twin_inputs = \<lparr>tx_id = ''t1'', inputs = [(''a'', 1), (''a'', 1), (''c'', 50)],
                   outputs = [(''b'', 51)], fee = 1\<rparr>"

definition twin_outputs :: transaction where
  "twin_outputs = \<lparr>tx_id = ''t2'', inputs = [(''a1'', 20), (''a2'', 12)],
                    outputs = [(''b1'', 19), (''b2'', 9), (''d'', 1), (''d'', 1)], fee = 2\<rparr>"

text \<open>
  A balanced transaction (\<open>34 = 30 + 4\<close>) on which the order of the two pruning steps
  shows: after the input \<open>a3\<close> is absorbed the fee is \<open>2\<close> and no output is dust, while
  with the fee \<open>4\<close> the output \<open>d\<close> would be.
\<close>

definition dusty :: transaction where
  "dusty = \<lparr>tx_id = ''t3'', inputs = [(''a1'', 20), (''a2'', 12), (''a3'', 2)],
             outputs = [(''b1'', 18), (''b2'', 10), (''d'', 2)], fee = 4\<rparr>"

text \<open>
  A balanced transaction (\<open>1 = 0 + 1\<close>) whose only input is absorbed by the fee.
\<close>

definition absorbed :: transaction where
  "absorbed = \<lparr>tx_id = ''t4'', inputs = [(''a'', 1)], outputs = [(''b'', 0)], fee = 1\<rparr>"


section \<open>Properties\<close>

subsection \<open>is_connectable\<close>

text \<open>
  Claim C3. With \<open>S\<close> the sum of the input subset's values, \<open>O\<close> the sum of the output
  subset's values and \<open>F\<close> the fee, \<open>is_connectable\<close> is true exactly when
  \<open>O \<le> S \<le> O + F\<close>. For a fee \<open>F \<ge> 0\<close> (the data model's fees) it is true at \<open>S = O\<close>
  and at \<open>S = O + F\<close>; it is false at \<open>S = O + F + 1\<close> and whenever \<open>S < O\<close>.
\<close>

theorem is_connectable_bounds:
  "(is_connectable ins outs F \<longleftrightarrow>
      sum_list (map snd outs) \<le> sum_list (map snd ins) \<and>
      sum_list (map snd ins) \<le> sum_list (map snd outs) + F) \<and>
   (0 \<le> F \<longrightarrow> sum_list (map snd ins) = sum_list (map snd outs) \<longrightarrow>
      is_connectable ins outs F) \<and>
   (0 \<le> F \<longrightarrow> sum_list (map snd ins) = sum_list (map snd outs) + F \<longrightarrow>
      is_connectable ins outs F) \<and>
   (sum_list (map snd ins) = sum_list (map snd outs) + F + 1 \<longrightarrow>
      \<not> is_connectable ins outs F) \<and>
   (sum_list (map snd ins) < sum_list (map snd outs) \<longrightarrow>
      \<not> is_connectable ins outs F)"
  by (auto simp: is_connectable_def Let_def)

theorem is_connectable_bounds_witness:
  "is_connectable [(''a2'', 10)] [(''b2'', 7), (''b3'', 3)] 0 \<and>
   is_connectable [(''a1'', 20)] [(''b1'', 19)] 1 \<and>
   \<not> is_connectable [(''a1'', 21)] [(''b1'', 19)] 1 \<and>
   \<not> is_connectable [(''a2'', 10)] [(''b1'', 19)] 1"
  using is_connectable_bounds [of "[(''a2'', 10)]" "[(''b2'', 7), (''b3'', 3)]" 0]
        is_connectable_bounds [of "[(''a1'', 20)]" "[(''b1'', 19)]" 1]
        is_connectable_bounds [of "[(''a1'', 21)]" "[(''b1'', 19)]" 1]
        is_connectable_bounds [of "[(''a2'', 10)]" "[(''b1'', 19)]" 1]
  by simp


subsection \<open>The simplifier\<close>

lemma mark_inputs_acc:
  "mark_inputs xs f acc =
     (acc @ fst (mark_inputs xs f []), snd (mark_inputs xs f []))"
proof (induction xs arbitrary: f acc)
  case Nil
  show ?case by simp
next
  case (Cons x xs)
  show ?case
  proof (cases "snd x \<le> f")
    case True
    have "mark_inputs (x # xs) f acc = mark_inputs xs (f - snd x) (acc @ [x])"
      using True by simp
    also have "\<dots> = ((acc @ [x]) @ fst (mark_inputs xs (f - snd x) []),
                     snd (mark_inputs xs (f - snd x) []))"
      by (rule Cons.IH)
    finally have l: "mark_inputs (x # xs) f acc =
        (acc @ x # fst (mark_inputs xs (f - snd x) []), snd (mark_inputs xs (f - snd x) []))"
      by simp
    have "mark_inputs (x # xs) f [] = mark_inputs xs (f - snd x) [x]"
      using True by simp
    also have "\<dots> = ([x] @ fst (mark_inputs xs (f - snd x) []),
                     snd (mark_inputs xs (f - snd x) []))"
      by (rule Cons.IH)
    finally have r: "mark_inputs (x # xs) f [] =
        (x # fst (mark_inputs xs (f - snd x) []), snd (mark_inputs xs (f - snd x) []))"
      by simp
    show ?thesis unfolding l r by simp
  next
    case False
    then show ?thesis by simp
  qed
qed

lemma mark_inputs_Cons:
  "mark_inputs (x # xs) f [] =
     (if snd x \<le> f
      then (x # fst (mark_inputs xs (f - snd x) []), snd (mark_inputs xs (f - snd x) []))
      else ([], f))"
  using mark_inputs_acc [of xs "f - snd x" "[x]"] by simp

lemma mark_inputs_prefix:
  "\<exists>rest. xs = fst (mark_inputs xs f []) @ rest"
  by (induction xs arbitrary: f) (simp_all add: mark_inputs_Cons del: mark_inputs.simps(2))

lemma mark_inputs_fee:
  "snd (mark_inputs xs f []) = f - sum_list (map snd (fst (mark_inputs xs f [])))"
  by (induction xs arbitrary: f) (simp_all add: mark_inputs_Cons del: mark_inputs.simps(2))

lemma remove_small_inputs_inputs:
  "inputs (remove_small_inputs tx) =
     filter (\<lambda>x. x \<notin> set (marked_inputs tx)) (sort_key sort_key_value (inputs tx))"
  by (simp add: remove_small_inputs_def marked_inputs_def Let_def split: prod.splits)

lemma remove_small_inputs_fee:
  "fee (remove_small_inputs tx) = fee tx - sum_list (map snd (marked_inputs tx))"
  using mark_inputs_fee [of "sort_key sort_key_value (inputs tx)" "fee tx"]
  by (auto simp: remove_small_inputs_def marked_inputs_def Let_def split: prod.splits)

lemma remove_small_inputs_outputs:
  "outputs (remove_small_inputs tx) = outputs tx"
  by (simp add: remove_small_inputs_def Let_def split: prod.splits)

lemma mark_outputs_acc:
  "mark_outputs xs d f acc =
     (acc @ filter (\<lambda>x. snd x \<le> d) xs, f + sum_list (map snd (filter (\<lambda>x. snd x \<le> d) xs)))"
  by (induction xs arbitrary: f acc) simp_all

lemma marked_outputs_eq:
  "marked_outputs d tx = filter (\<lambda>x. snd x \<le> d) (sort_key sort_key_value (outputs tx))"
  by (simp add: marked_outputs_def mark_outputs_acc)

lemma remove_small_outputs_result:
  assumes "remove_small_outputs tx = Some (Inr tx')"
  shows "\<exists>aps delta. get_acceptable_partitions tx = Some (Inr aps) \<and>
           delta_loop aps 0 = Inr delta \<and>
           tx' = tx\<lparr>outputs := filter (\<lambda>x. x \<notin> set (marked_outputs delta tx))
                                  (sort_key sort_key_value (outputs tx)),
                    fee := fee tx + sum_list (map snd (marked_outputs delta tx))\<rparr>"
  using assms
  by (auto simp: remove_small_outputs_def marked_outputs_eq mark_outputs_acc Let_def
           split: option.splits sum.splits)

lemma sum_list_sort_key: "sum_list (map snd (sort_key k (xs :: entry list))) = sum_list (map snd xs)"
proof -
  have "mset (sort_key k xs) = mset xs" by simp
  then have "mset (map snd (sort_key k xs)) = mset (map snd xs)" by (metis mset_map)
  then show ?thesis by (metis sum_mset_sum_list)
qed

lemma sum_list_filter_split:
  "sum_list (map (f :: 'a \<Rightarrow> int) xs) =
     sum_list (map f (filter P xs)) + sum_list (map f (filter (\<lambda>x. \<not> P x) xs))"
  by (induction xs) simp_all

lemma remove_small_outputs_balanced:
  assumes "remove_small_outputs tx = Some (Inr tx')" and "balanced tx"
  shows "balanced tx'"
proof -
  from remove_small_outputs_result [OF assms(1)] obtain aps delta where
    tx': "tx' = tx\<lparr>outputs := filter (\<lambda>x. x \<notin> set (marked_outputs delta tx))
                                  (sort_key sort_key_value (outputs tx)),
                    fee := fee tx + sum_list (map snd (marked_outputs delta tx))\<rparr>"
    by blast
  let ?s = "sort_key sort_key_value (outputs tx)"
  have keep: "filter (\<lambda>x. x \<notin> set (marked_outputs delta tx)) ?s = filter (\<lambda>x. \<not> snd x \<le> delta) ?s"
    by (rule filter_cong) (auto simp: marked_outputs_eq)
  have "sum_list (map snd (outputs tx)) = sum_list (map snd ?s)"
    by (simp add: sum_list_sort_key)
  also have "\<dots> = sum_list (map snd (filter (\<lambda>x. snd x \<le> delta) ?s))
                  + sum_list (map snd (filter (\<lambda>x. \<not> snd x \<le> delta) ?s))"
    by (rule sum_list_filter_split)
  finally have total: "sum_list (map snd (outputs tx)) =
      sum_list (map snd (filter (\<lambda>x. snd x \<le> delta) ?s))
        + sum_list (map snd (filter (\<lambda>x. \<not> snd x \<le> delta) ?s))" .
  have o: "outputs tx' = filter (\<lambda>x. \<not> snd x \<le> delta) ?s"
    using keep by (simp add: tx')
  have f: "fee tx' = fee tx + sum_list (map snd (filter (\<lambda>x. snd x \<le> delta) ?s))"
    by (simp add: tx' marked_outputs_eq)
  have i: "inputs tx' = inputs tx"
    by (simp add: tx')
  show ?thesis
    using assms(2) total unfolding balanced_def o f i by simp
qed

lemma remove_small_inputs_balanced:
  assumes "distinct (inputs tx)" and "balanced tx"
  shows "balanced (remove_small_inputs tx)"
proof -
  let ?s = "sort_key sort_key_value (inputs tx)"
  obtain rest where s: "?s = marked_inputs tx @ rest"
    using mark_inputs_prefix [of ?s "fee tx"] unfolding marked_inputs_def by blast
  have "distinct ?s" using assms(1) by simp
  then have d: "distinct (marked_inputs tx @ rest)" using s by simp
  have "filter (\<lambda>x. x \<notin> set (marked_inputs tx)) (marked_inputs tx @ rest) = rest"
    using d by (auto simp: filter_empty_conv filter_id_conv)
  then have keep: "inputs (remove_small_inputs tx) = rest"
    unfolding remove_small_inputs_inputs s by simp
  have "sum_list (map snd (inputs tx)) = sum_list (map snd ?s)"
    by (simp add: sum_list_sort_key)
  also have "\<dots> = sum_list (map snd (marked_inputs tx)) + sum_list (map snd rest)"
    unfolding s by simp
  finally show ?thesis
    using assms(2) unfolding balanced_def keep remove_small_inputs_fee remove_small_inputs_outputs
    by simp
qed

text \<open>
  Claim C2 fails on the code for \<open>remove_small_inputs\<close>: \<open>twin_inputs\<close> is balanced
  (\<open>52 = 51 + 1\<close>), and after the step its inputs are worth \<open>50\<close>, its outputs \<open>51\<close> and
  its fee is \<open>0\<close>. The scan marks one copy of \<open>(a, 1)\<close> and the filter drops both.
\<close>

theorem remove_small_inputs_unbalanced:
  "balanced twin_inputs \<and>
   remove_small_inputs twin_inputs =
     \<lparr>tx_id = ''t1'', inputs = [(''c'', 50)], outputs = [(''b'', 51)], fee = 0\<rparr> \<and>
   \<not> balanced (remove_small_inputs twin_inputs)"
  unfolding twin_inputs_def by code_simp

subsection \<open>get_codewords\<close>

lemma inner_loop_spec:
  "m \<le> length cw \<Longrightarrow>
   (case inner_loop k cw m of
      Return \<Rightarrow> m \<noteq> 0 \<and> (\<forall>j. 1 \<le> j \<and> j < m \<longrightarrow> \<not> can_inc k cw j)
    | Break cw' \<Rightarrow>
        \<exists>s. 1 \<le> s \<and> s < m \<and> can_inc k cw s \<and>
            (\<forall>j. s < j \<and> j < m \<longrightarrow> \<not> can_inc k cw j) \<and>
            cw' = take s cw @ (cw ! s + 1) # replicate (m - Suc s) 1 @ drop m cw
    | Exhausted cw' \<Rightarrow> m = 0)"
proof (induction m arbitrary: cw)
  case 0
  show ?case by simp
next
  case (Suc m)
  show ?case
  proof (cases "m = 0")
    case True
    then show ?thesis by simp
  next
    case False
    have ne: "take m cw \<noteq> []" using False Suc.prems by auto
    show ?thesis
    proof (cases "can_inc k cw m")
      case True
      have t: "\<not> (Max (set (take m cw)) > k \<or> cw ! m > Max (set (take m cw))
                  \<or> cw ! m \<ge> k)"
        using True unfolding can_inc_def .
      have r: "inner_loop k cw (Suc m) = Break (cw[m := cw ! m + 1])"
        by (simp only: inner_loop.simps Let_def ne t if_False)
      have "cw[m := cw ! m + 1] = take m cw @ (cw ! m + 1) # replicate (Suc m - Suc m) 1 @ drop (Suc m) cw"
        using Suc.prems by (simp add: upd_conv_take_nth_drop)
      then have "\<exists>s. 1 \<le> s \<and> s < Suc m \<and> can_inc k cw s \<and>
            (\<forall>j. s < j \<and> j < Suc m \<longrightarrow> \<not> can_inc k cw j) \<and>
            cw[m := cw ! m + 1] = take s cw @ (cw ! s + 1) # replicate (Suc m - Suc s) 1 @ drop (Suc m) cw"
        using True False by (intro exI [of _ m]) auto
      then show ?thesis unfolding r by simp
    next
      case no: False
      have t: "Max (set (take m cw)) > k \<or> cw ! m > Max (set (take m cw)) \<or> cw ! m \<ge> k"
        using no unfolding can_inc_def by blast
      have r: "inner_loop k cw (Suc m) = inner_loop k (cw[m := 1]) m"
        by (simp only: inner_loop.simps Let_def ne t if_False if_True)
      have same: "can_inc k (cw[m := 1]) j = can_inc k cw j" if "j < m" for j
        using that by (simp add: can_inc_def)
      have len: "m \<le> length (cw[m := 1])" using Suc.prems by simp
      have dr: "drop m (cw[m := 1]) = 1 # drop (Suc m) cw"
        using Suc.prems by (simp add: upd_conv_take_nth_drop)
      note IH = Suc.IH [OF len]
      show ?thesis
      proof (cases "inner_loop k (cw[m := 1]) m")
        case Return
        with IH have "\<forall>j. 1 \<le> j \<and> j < m \<longrightarrow> \<not> can_inc k cw j"
          using same by simp
        then have "\<forall>j. 1 \<le> j \<and> j < Suc m \<longrightarrow> \<not> can_inc k cw j"
          using no less_Suc_eq by auto
        then show ?thesis unfolding r Return by simp
      next
        case (Break cw')
        with IH obtain s where s: "1 \<le> s" "s < m" "can_inc k (cw[m := 1]) s"
          "\<forall>j. s < j \<and> j < m \<longrightarrow> \<not> can_inc k (cw[m := 1]) j"
          "cw' = take s (cw[m := 1]) @ ((cw[m := 1]) ! s + 1) # replicate (m - Suc s) 1 @ drop m (cw[m := 1])"
          by auto
        have a: "can_inc k cw s" using s(2,3) same by simp
        have b: "\<forall>j. s < j \<and> j < Suc m \<longrightarrow> \<not> can_inc k cw j"
          using s(4) same no less_Suc_eq by auto
        have "Suc m - Suc s = Suc (m - Suc s)" using s(2) by simp
        then have "replicate (m - Suc s) (1::int) @ 1 # drop (Suc m) cw
                = replicate (Suc m - Suc s) 1 @ drop (Suc m) cw"
          by (simp only: replicate_Suc replicate_app_Cons_same append_Cons)
        then have c: "cw' = take s cw @ (cw ! s + 1) # replicate (Suc m - Suc s) 1 @ drop (Suc m) cw"
          using s(2) unfolding s(5) dr by simp
        show ?thesis unfolding r Break using s(1,2) a b c by auto
      next
        case (Exhausted cw')
        with IH False show ?thesis by simp
      qed
    qed
  qed
qed

lemma inner_loop_full:
  assumes "length cw = n" and "n \<noteq> 0"
  shows "(inner_loop k cw n = Return \<and> (\<forall>j. 1 \<le> j \<and> j < n \<longrightarrow> \<not> can_inc k cw j)) \<or>
         (\<exists>s. 1 \<le> s \<and> s < n \<and> can_inc k cw s \<and>
            (\<forall>j. s < j \<and> j < n \<longrightarrow> \<not> can_inc k cw j) \<and>
            inner_loop k cw n = Break (take s cw @ (cw ! s + 1) # replicate (n - Suc s) 1))"
  using inner_loop_spec [of n cw k] assms
  by (cases "inner_loop k cw n") auto

lemma Max_insert_max:
  "finite S \<Longrightarrow> Max (insert (max m a) S) = Max (insert m (insert a S))"
  by (cases "S = {}") (simp_all add: max.assoc)

lemma rgs_from_append:
  "rgs_from k m (u @ w) \<longleftrightarrow> rgs_from k m u \<and> rgs_from k (Max (insert m (set u))) w"
proof (induction u arbitrary: m)
  case Nil
  show ?case by simp
next
  case (Cons a u)
  have "Max (insert (max m a) (set u)) = Max (insert m (set (a # u)))"
    using Max_insert_max [of "set u" m a] by simp
  then show ?case using Cons.IH [of "max m a"] by auto
qed

lemma rgs_from_ones: "0 \<le> m \<Longrightarrow> 1 \<le> k \<Longrightarrow> rgs_from k m (replicate r 1)"
  by (induction r arbitrary: m) simp_all

lemma rgs_from_bounds: "rgs_from k m cs \<Longrightarrow> c \<in> set cs \<Longrightarrow> 1 \<le> c \<and> c \<le> k"
  by (induction cs arbitrary: m) auto

lemma Max_insert_zero:
  assumes "u \<noteq> []" and "\<forall>c \<in> set u. (1::int) \<le> c"
  shows "Max (insert 0 (set u)) = Max (set u)"
proof -
  have "set u \<noteq> {}" using assms(1) by simp
  moreover have "0 \<le> Max (set u)"
  proof -
    obtain c where c: "c \<in> set u" using assms(1) by (cases u) auto
    then have "c \<le> Max (set u)" by simp
    moreover have "1 \<le> c" using assms(2) c by blast
    ultimately show ?thesis by linarith
  qed
  ultimately show ?thesis by (simp add: max_def)
qed

lemma less_append_same: "u @ x < u @ y \<longleftrightarrow> x < (y :: int list)"
  by (induction u) simp_all

lemma le_append_same: "u @ x \<le> u @ y \<longleftrightarrow> x \<le> (y :: int list)"
  by (induction u) simp_all

lemma ones_le: "length w = r \<Longrightarrow> \<forall>e \<in> set w. 1 \<le> e \<Longrightarrow> replicate r (1::int) \<le> w"
proof (induction w arbitrary: r)
  case Nil
  then show ?case by simp
next
  case (Cons e w)
  then obtain r' where r: "r = Suc r'" by (cases r) auto
  have "replicate r' 1 \<le> w" using Cons r by simp
  moreover have "1 \<le> e" using Cons.prems(2) by simp
  ultimately show ?case unfolding r by auto
qed

lemma less_decomp:
  "length x = length y \<Longrightarrow> x < y \<Longrightarrow>
     \<exists>u a b v w. x = u @ a # v \<and> y = u @ b # w \<and> a < (b::int)"
proof (induction x y rule: list_induct2)
  case Nil
  then show ?case by simp
next
  case (Cons a x b y)
  show ?case
  proof (cases "a < b")
    case True
    then have "a # x = [] @ a # x \<and> b # y = [] @ b # y \<and> a < b" by simp
    then show ?thesis by blast
  next
    case False
    with Cons.prems have ab: "a = b" and xy: "x < y" by auto
    from Cons.IH [OF xy] obtain u a' b' v w where
      "x = u @ a' # v" "y = u @ b' # w" "a' < b'" by blast
    then have "a # x = (a # u) @ a' # v \<and> b # y = (a # u) @ b' # w \<and> a' < b'"
      using ab by simp
    then show ?thesis by blast
  qed
qed

lemma wf_cw_rel: "wf (lex {(a::int, b). b < a \<and> a \<le> k})"
proof (rule wf_lex)
  show "wf {(a::int, b). b < a \<and> a \<le> k}"
    by (rule wf_subset [OF wf_measure [of "\<lambda>a. nat (k - a)"]]) auto
qed

lemma step_in_rel:
  assumes "s < length cw" and "can_inc k cw s"
  shows "(take s cw @ (cw ! s + 1) # replicate (length cw - Suc s) 1, cw)
           \<in> lex {(a, b). b < a \<and> a \<le> k}"
proof -
  have cw: "cw = take s cw @ cw ! s # drop (Suc s) cw"
    using assms(1) by (simp add: id_take_nth_drop)
  have len: "length (take s cw @ (cw ! s + 1) # replicate (length cw - Suc s) 1) = length cw"
    using assms(1) by simp
  have r: "(cw ! s + 1, cw ! s) \<in> {(a, b). b < a \<and> a \<le> k}"
    using assms(2) by (simp add: can_inc_def)
  show ?thesis
    unfolding lex_conv using len cw r by blast
qed

lemma step_less:
  assumes "s < length cw"
  shows "(cw :: int list) < take s cw @ (cw ! s + 1) # replicate (length cw - Suc s) 1"
proof -
  have cw: "cw = take s cw @ cw ! s # drop (Suc s) cw"
    using assms(1) by (simp add: id_take_nth_drop)
  have "take s cw @ cw ! s # drop (Suc s) cw
          < take s cw @ (cw ! s + 1) # replicate (length cw - Suc s) 1"
    unfolding less_append_same by simp
  then show ?thesis using cw by simp
qed

lemma step_valid:
  assumes "rgs_from (max 1 k) 0 cw" and "1 \<le> s" and "s < length cw" and "can_inc k cw s"
  shows "rgs_from (max 1 k) 0 (take s cw @ (cw ! s + 1) # replicate (length cw - Suc s) 1)"
proof -
  let ?u = "take s cw"
  have cw: "cw = ?u @ cw ! s # drop (Suc s) cw"
    using assms(3) by (simp add: id_take_nth_drop)
  have ne: "?u \<noteq> []" using assms(2,3) by auto
  have u: "rgs_from (max 1 k) 0 ?u"
    using assms(1) rgs_from_append [of "max 1 k" 0 ?u "drop s cw"] by simp
  have b: "\<forall>c \<in> set ?u. 1 \<le> c" using rgs_from_bounds [OF u] by blast
  have M: "Max (insert 0 (set ?u)) = Max (set ?u)" by (rule Max_insert_zero [OF ne b])
  have cs: "1 \<le> cw ! s"
    using rgs_from_bounds [OF assms(1), of "cw ! s"] assms(3) by simp
  have c1: "cw ! s \<le> Max (set ?u)" and c2: "cw ! s < k"
    using assms(4) by (auto simp: can_inc_def)
  have "rgs_from (max 1 k) (Max (set ?u)) ((cw ! s + 1) # replicate (length cw - Suc s) 1)"
    using cs c1 c2 rgs_from_ones [of "max (Max (set ?u)) (cw ! s + 1)" "max 1 k"] by simp
  then show ?thesis
    using u M rgs_from_append [of "max 1 k" 0 ?u] by simp
qed

lemma no_gap:
  assumes v: "rgs_from (max 1 k) 0 cw" and vx: "rgs_from (max 1 k) 0 x"
    and lc: "length cw = n" and lx: "length x = n" and less: "cw < x"
  shows "\<exists>s. 1 \<le> s \<and> s < n \<and> can_inc k cw s \<and>
           (\<forall>s'. s \<le> s' \<and> s' < n \<longrightarrow>
              take s' cw @ (cw ! s' + 1) # replicate (n - Suc s') 1 \<le> x)"
proof -
  from less_decomp [OF _ less] lc lx obtain u a b v' w where
    cw: "cw = u @ a # v'" and x: "x = u @ b # w" and ab: "a < b"
    by auto
  let ?s = "length u"
  have a1: "1 \<le> a" using rgs_from_bounds [OF v, of a] cw by simp
  have xu: "rgs_from (max 1 k) 0 u" and xb: "rgs_from (max 1 k) (Max (insert 0 (set u))) (b # w)"
    using vx rgs_from_append [of "max 1 k" 0 u "b # w"] unfolding x by simp_all
  have ne: "u \<noteq> []"
  proof
    assume "u = []"
    then have "b \<le> 1" using xb by simp
    then show False using a1 ab by linarith
  qed
  have ub: "\<forall>c \<in> set u. 1 \<le> c \<and> c \<le> max 1 k" using rgs_from_bounds [OF xu] by blast
  have M: "Max (insert 0 (set u)) = Max (set u)"
    using Max_insert_zero [OF ne] ub by blast
  have b1: "b \<le> Max (set u) + 1" and b2: "b \<le> max 1 k"
    using xb M by simp_all
  have k2: "max 1 k = k" using a1 ab b2 by linarith
  have Mk: "Max (set u) \<le> k"
    using ub ne k2 by (simp add: Max_le_iff)
  have tk: "take ?s cw = u" and nth: "cw ! ?s = a" unfolding cw by simp_all
  have inc: "can_inc k cw ?s"
    unfolding can_inc_def tk nth using Mk b1 b2 ab k2 by linarith
  have s1: "1 \<le> ?s" using ne by (cases u) auto
  have sn: "?s < n" using lc cw by auto
  have wl: "length w = n - Suc ?s" using lx x by auto
  have w1: "\<forall>e \<in> set w. 1 \<le> e" using rgs_from_bounds [OF vx] x by auto
  have "take s' cw @ (cw ! s' + 1) # replicate (n - Suc s') 1 \<le> x"
    if "?s \<le> s'" and "s' < n" for s'
  proof (cases "s' = ?s")
    case True
    have "(a + 1) # replicate (n - Suc ?s) 1 \<le> b # w"
      using ab ones_le [OF wl w1] by auto
    then have "u @ (a + 1) # replicate (n - Suc ?s) 1 \<le> u @ b # w"
      unfolding le_append_same .
    then show ?thesis unfolding True tk nth x .
  next
    case False
    then have "?s < s'" using that(1) by simp
    then obtain d where d: "s' = Suc (?s + d)" by (auto simp: less_iff_Suc_add)
    have "take s' cw = u @ a # take d v'" unfolding cw d by simp
    then have "take s' cw @ (cw ! s' + 1) # replicate (n - Suc s') 1
                 = u @ a # (take d v' @ (cw ! s' + 1) # replicate (n - Suc s') 1)"
      by simp
    moreover have "u @ a # (take d v' @ (cw ! s' + 1) # replicate (n - Suc s') 1) < u @ b # w"
      unfolding less_append_same using ab by simp
    ultimately show ?thesis unfolding x by simp
  qed
  then show ?thesis using s1 sn inc by blast
qed

lemma codewords_loop_enum:
  assumes n: "n \<noteq> 0"
  shows "length cw = n \<Longrightarrow> rgs_from (max 1 k) 0 cw \<Longrightarrow>
         \<exists>L. codewords_loop n k cws cw = Some (cws @ cw # L) \<and> sorted_wrt (<) (cw # L) \<and>
             set (cw # L) = {x. length x = n \<and> rgs_from (max 1 k) 0 x \<and> cw \<le> x}"
proof (induction cw arbitrary: cws rule: wf_induct_rule [OF wf_cw_rel [of k], consumes 0, case_names less])
  case (less cw)
  note len = less.prems(1) and val = less.prems(2)
  from inner_loop_full [OF len n, of k] consider
    (ret) "inner_loop k cw n = Return" "\<forall>j. 1 \<le> j \<and> j < n \<longrightarrow> \<not> can_inc k cw j"
  | (brk) s where "1 \<le> s" "s < n" "can_inc k cw s"
      "\<forall>j. s < j \<and> j < n \<longrightarrow> \<not> can_inc k cw j"
      "inner_loop k cw n = Break (take s cw @ (cw ! s + 1) # replicate (n - Suc s) 1)"
    by blast
  then show ?case
  proof cases
    case ret
    have run: "codewords_loop n k cws cw = Some (cws @ cw # [])"
      by (simp add: codewords_loop.simps [of n k cws cw] ret(1))
    have "x = cw" if "length x = n" "rgs_from (max 1 k) 0 x" "cw \<le> x" for x
    proof (rule ccontr)
      assume "x \<noteq> cw"
      then have "cw < x" using that(3) by simp
      from no_gap [OF val that(2) len that(1) this] ret(2) show False by blast
    qed
    then have "set (cw # []) = {x. length x = n \<and> rgs_from (max 1 k) 0 x \<and> cw \<le> x}"
      using len val by auto
    then show ?thesis using run by (intro exI [of _ "[]"]) simp
  next
    case brk
    let ?cw' = "take s cw @ (cw ! s + 1) # replicate (n - Suc s) 1"
    have sl: "s < length cw" using brk(2) len by simp
    have rel: "(?cw', cw) \<in> lex {(a, b). b < a \<and> a \<le> k}"
      using step_in_rel [OF sl brk(3)] len by simp
    have len': "length ?cw' = n" using brk(2) len by simp
    have val': "rgs_from (max 1 k) 0 ?cw'"
      using step_valid [OF val brk(1) sl brk(3)] len by simp
    have lt: "cw < ?cw'" using step_less [OF sl] len by simp
    from less.IH [OF rel len' val', of "cws @ [cw]"] obtain L' where
      run': "codewords_loop n k (cws @ [cw]) ?cw' = Some ((cws @ [cw]) @ ?cw' # L')"
      and sorted': "sorted_wrt (<) (?cw' # L')"
      and set': "set (?cw' # L') = {x. length x = n \<and> rgs_from (max 1 k) 0 x \<and> ?cw' \<le> x}"
      by blast
    have run: "codewords_loop n k cws cw = Some (cws @ cw # ?cw' # L')"
      using run' by (simp add: codewords_loop.simps [of n k cws cw] brk(5))
    have "\<forall>y \<in> set L'. cw < y"
      using sorted' lt by (auto intro: less_trans)
    then have sorted: "sorted_wrt (<) (cw # ?cw' # L')"
      using sorted' lt by simp
    have next_le: "?cw' \<le> x" if "length x = n" "rgs_from (max 1 k) 0 x" "cw < x" for x
    proof -
      from no_gap [OF val that(2) len that(1) that(3)] obtain s0 where
        s0: "1 \<le> s0" "s0 < n" "can_inc k cw s0"
        and all: "\<forall>s'. s0 \<le> s' \<and> s' < n \<longrightarrow>
              take s' cw @ (cw ! s' + 1) # replicate (n - Suc s') 1 \<le> x"
        by blast
      have "s0 \<le> s"
      proof (rule ccontr)
        assume "\<not> s0 \<le> s"
        then have "s < s0" by simp
        then show False using brk(4) s0 by blast
      qed
      then show ?thesis using all brk(2) by blast
    qed
    have "set (cw # ?cw' # L') = {x. length x = n \<and> rgs_from (max 1 k) 0 x \<and> cw \<le> x}"
    proof (intro set_eqI iffI)
      fix x assume "x \<in> set (cw # ?cw' # L')"
      then consider "x = cw" | "x \<in> set (?cw' # L')" by auto
      then show "x \<in> {x. length x = n \<and> rgs_from (max 1 k) 0 x \<and> cw \<le> x}"
      proof cases
        case 1
        then show ?thesis using len val by simp
      next
        case 2
        then have "length x = n \<and> rgs_from (max 1 k) 0 x \<and> ?cw' \<le> x"
          unfolding set' by simp
        then show ?thesis using lt by auto
      qed
    next
      fix x assume "x \<in> {x. length x = n \<and> rgs_from (max 1 k) 0 x \<and> cw \<le> x}"
      then have x: "length x = n" "rgs_from (max 1 k) 0 x" "cw \<le> x" by simp_all
      show "x \<in> set (cw # ?cw' # L')"
      proof (cases "x = cw")
        case True
        then show ?thesis by simp
      next
        case False
        then have "cw < x" using x(3) by simp
        from next_le [OF x(1,2) this] have "x \<in> set (?cw' # L')"
          unfolding set' using x(1,2) by simp
        then show ?thesis by simp
      qed
    qed
    then show ?thesis using run sorted by (intro exI [of _ "?cw' # L'"]) simp
  qed
qed

lemma get_codewords_enum:
  assumes "n \<noteq> 0"
  shows "\<exists>L. get_codewords n k = Some L \<and> sorted_wrt (<) L \<and>
             set L = {x. length x = n \<and> rgs_from (max 1 k) 0 x}"
proof -
  have l: "length (replicate n (1::int)) = n" by simp
  have v: "rgs_from (max 1 k) 0 (replicate n 1)" by (rule rgs_from_ones) simp_all
  from codewords_loop_enum [OF assms l v, of "[]"] obtain L where
    run: "codewords_loop n k [] (replicate n 1) = Some ([] @ replicate n 1 # L)"
    and sorted: "sorted_wrt (<) (replicate n 1 # L)"
    and set: "set (replicate n 1 # L) =
                {x. length x = n \<and> rgs_from (max 1 k) 0 x \<and> replicate n 1 \<le> x}"
    by blast
  have "replicate n 1 \<le> x" if "length x = n" "rgs_from (max 1 k) 0 x" for x
    using ones_le [OF that(1)] rgs_from_bounds [OF that(2)] by blast
  then have "{x. length x = n \<and> rgs_from (max 1 k) 0 x \<and> replicate n 1 \<le> x}
               = {x. length x = n \<and> rgs_from (max 1 k) 0 x}"
    by blast
  then show ?thesis
    using run sorted set unfolding get_codewords_def
    by (intro exI [of _ "replicate n 1 # L"]) simp
qed

subsection \<open>get_partitions\<close>

lemma py_index_in_range:
  "1 \<le> c \<Longrightarrow> c \<le> int len \<Longrightarrow> py_index len (c - 1) = Inr (nat (c - 1))"
  by (simp add: py_index_def)

lemma mset_concat_update:
  assumes "j < length part"
  shows "mset (concat (part[j := part ! j @ [e]])) = mset (concat part) + {#e#}"
proof -
  have p: "part = take j part @ part ! j # drop (Suc j) part"
    using assms by (simp add: id_take_nth_drop)
  have u: "part[j := part ! j @ [e]] = take j part @ (part ! j @ [e]) # drop (Suc j) part"
    using assms by (simp add: upd_conv_take_nth_drop)
  have "mset (concat (take j part @ (part ! j @ [e]) # drop (Suc j) part))
          = mset (concat (take j part @ part ! j # drop (Suc j) part)) + {#e#}"
    by simp
  then show ?thesis using p u by simp
qed

lemma place_ok:
  assumes "\<forall>i \<in> set is. i < length lst \<and> 1 \<le> cw ! i \<and> cw ! i \<le> int (length part)"
  shows "\<exists>res. place lst cw is part = Inr res \<and> length res = length part \<and>
           mset (concat res) = mset (concat part) + mset (map ((!) lst) is) \<and>
           (\<forall>j < length part.
              part ! j \<noteq> [] \<or> (\<exists>i \<in> set is. cw ! i = int j + 1) \<longrightarrow> res ! j \<noteq> [])"
  using assms
proof (induction "is" arbitrary: part)
  case Nil
  then show ?case by simp
next
  case (Cons i "is")
  let ?j = "nat (cw ! i - 1)"
  let ?part = "part[?j := part ! ?j @ [lst ! i]]"
  have i: "i < length lst" "1 \<le> cw ! i" "cw ! i \<le> int (length part)"
    using Cons.prems by simp_all
  have j: "?j < length part" using i(2,3) by linarith
  have idx: "py_index (length part) (cw ! i - 1) = Inr ?j"
    by (rule py_index_in_range [OF i(2,3)])
  have step: "place lst cw (i # is) part = place lst cw is ?part"
    using i(1) idx by (simp add: Let_def)
  have "\<forall>i \<in> set is. i < length lst \<and> 1 \<le> cw ! i \<and> cw ! i \<le> int (length ?part)"
    using Cons.prems by simp
  from Cons.IH [OF this] obtain res where
    res: "place lst cw is ?part = Inr res" and len: "length res = length ?part"
    and ms: "mset (concat res) = mset (concat ?part) + mset (map ((!) lst) is)"
    and ne: "\<forall>j < length ?part.
              ?part ! j \<noteq> [] \<or> (\<exists>i \<in> set is. cw ! i = int j + 1) \<longrightarrow> res ! j \<noteq> []"
    by blast
  have ms': "mset (concat res) = mset (concat part) + mset (map ((!) lst) (i # is))"
    unfolding ms mset_concat_update [OF j] by simp
  have ne': "res ! j' \<noteq> []"
    if "j' < length part" "part ! j' \<noteq> [] \<or> (\<exists>i' \<in> set (i # is). cw ! i' = int j' + 1)" for j'
  proof -
    have "?part ! j' \<noteq> [] \<or> (\<exists>i' \<in> set is. cw ! i' = int j' + 1)"
    proof (cases "j' = ?j")
      case True
      then show ?thesis using j by simp
    next
      case False
      have "cw ! i \<noteq> int j' + 1" using False by auto
      then show ?thesis using that(2) False by auto
    qed
    then show ?thesis using ne that(1) by simp
  qed
  show ?case
    unfolding step using res len ms' ne' by simp
qed

lemma make_partition_ok:
  assumes "length cw = length lst" and "cw \<noteq> []" and "\<forall>c \<in> set cw. 1 \<le> c"
  shows "\<exists>p. make_partition lst cw = Inr p \<and> length p = nat (Max (set cw)) \<and>
           mset (concat p) = mset lst \<and>
           (\<forall>j < nat (Max (set cw)). int j + 1 \<in> set cw \<longrightarrow> p ! j \<noteq> [])"
proof -
  let ?M = "Max (set cw)"
  let ?part = "replicate (nat ?M) ([] :: 'a list)"
  have M1: "1 \<le> ?M"
  proof -
    obtain c where c: "c \<in> set cw" using assms(2) by (cases cw) auto
    then have le: "c \<le> ?M" by simp
    have "1 \<le> c" using assms(3) c by blast
    then show ?thesis using le by linarith
  qed
  have "\<forall>i \<in> set [0..<length cw]. i < length lst \<and> 1 \<le> cw ! i \<and> cw ! i \<le> int (length ?part)"
    using assms(1,3) M1 by simp
  from place_ok [OF this] obtain res where
    res: "place lst cw [0..<length cw] ?part = Inr res" and len: "length res = length ?part"
    and ms: "mset (concat res) = mset (concat ?part) + mset (map ((!) lst) [0..<length cw])"
    and ne: "\<forall>j < length ?part.
              ?part ! j \<noteq> [] \<or> (\<exists>i \<in> set [0..<length cw]. cw ! i = int j + 1) \<longrightarrow> res ! j \<noteq> []"
    by blast
  have mp: "make_partition lst cw = Inr res"
    using res assms(2) by (simp add: make_partition_def Let_def)
  have "map ((!) lst) [0..<length cw] = lst"
    unfolding assms(1) by (rule map_nth)
  then have ms': "mset (concat res) = mset lst" using ms by simp
  have ne': "res ! j \<noteq> []" if "j < nat ?M" "int j + 1 \<in> set cw" for j
  proof -
    from that(2) obtain i where "i < length cw" "cw ! i = int j + 1"
      by (auto simp: in_set_conv_nth)
    then have "\<exists>i \<in> set [0..<length cw]. cw ! i = int j + 1" by auto
    then show ?thesis using ne that(1) by simp
  qed
  show ?thesis using mp len ms' ne' by simp
qed

lemma rgs_all_values:
  "rgs_from k m cs \<Longrightarrow> m < v \<Longrightarrow> v \<le> Max (insert m (set cs)) \<Longrightarrow> v \<in> set cs"
proof (induction cs arbitrary: m)
  case Nil
  then show ?case by simp
next
  case (Cons c cs)
  show ?case
  proof (cases "v = c")
    case True
    then show ?thesis by simp
  next
    case False
    have r: "rgs_from k (max m c) cs" and c: "c \<le> m + 1" using Cons.prems(1) by simp_all
    have lt: "max m c < v" using Cons.prems(2) c False by linarith
    have "Max (insert (max m c) (set cs)) = Max (insert m (set (c # cs)))"
      using Max_insert_max [of "set cs" m c] by simp
    then have "v \<le> Max (insert (max m c) (set cs))" using Cons.prems(3) by simp
    from Cons.IH [OF r lt this] show ?thesis by simp
  qed
qed

lemma make_partition_rgs:
  assumes "length cw = length lst" and "lst \<noteq> []" and "rgs_from k 0 cw"
  shows "\<exists>p. make_partition lst cw = Inr p \<and> length p = nat (Max (set cw)) \<and>
           mset (concat p) = mset lst \<and> (\<forall>b \<in> set p. b \<noteq> [])"
proof -
  have ne: "cw \<noteq> []" using assms(1,2) by auto
  have b: "\<forall>c \<in> set cw. 1 \<le> c" using rgs_from_bounds [OF assms(3)] by blast
  from make_partition_ok [OF assms(1) ne b] obtain p where
    p: "make_partition lst cw = Inr p" "length p = nat (Max (set cw))" "mset (concat p) = mset lst"
    and some: "\<forall>j < nat (Max (set cw)). int j + 1 \<in> set cw \<longrightarrow> p ! j \<noteq> []"
    by blast
  have M: "Max (insert 0 (set cw)) = Max (set cw)" by (rule Max_insert_zero [OF ne b])
  have "p ! j \<noteq> []" if "j < length p" for j
  proof -
    have "int j + 1 \<le> Max (insert 0 (set cw))" using that p(2) M by linarith
    from rgs_all_values [OF assms(3) _ this] have "int j + 1 \<in> set cw" by simp
    then show ?thesis using some that p(2) by simp
  qed
  then have "\<forall>b \<in> set p. b \<noteq> []" by (auto simp: in_set_conv_nth)
  then show ?thesis using p by blast
qed

lemma partitions_loop_ok:
  "\<forall>cw \<in> set cws. \<exists>p. make_partition lst cw = Inr p \<Longrightarrow>
   partitions_loop lst cws acc = Inr (acc @ map (\<lambda>cw. projr (make_partition lst cw)) cws)"
proof (induction cws arbitrary: acc)
  case Nil
  show ?case by simp
next
  case (Cons cw cws)
  from Cons.prems obtain p where p: "make_partition lst cw = Inr p" by auto
  have "\<forall>cw \<in> set cws. \<exists>p. make_partition lst cw = Inr p" using Cons.prems by simp
  from Cons.IH [OF this, of "acc @ [p]"] show ?case using p by simp
qed

lemma get_partitions_enum:
  assumes "xs \<noteq> []"
  shows "\<exists>L. get_codewords (length xs) k = Some L \<and> sorted_wrt (<) L \<and>
             set L = {x. length x = length xs \<and> rgs_from (max 1 k) 0 x} \<and>
             get_partitions xs k = Some (Inr (map (\<lambda>cw. projr (make_partition xs cw)) L))"
proof -
  have n: "length xs \<noteq> 0" using assms by simp
  from get_codewords_enum [OF n, of k] obtain L where
    L: "get_codewords (length xs) k = Some L" "sorted_wrt (<) L"
       "set L = {x. length x = length xs \<and> rgs_from (max 1 k) 0 x}"
    by blast
  have "\<exists>p. make_partition xs cw = Inr p" if "cw \<in> set L" for cw
  proof -
    have "length cw = length xs" "rgs_from (max 1 k) 0 cw" using that L(3) by simp_all
    from make_partition_rgs [OF this(1) assms this(2)] show ?thesis by blast
  qed
  then have "partitions_loop xs L [] = Inr ([] @ map (\<lambda>cw. projr (make_partition xs cw)) L)"
    by (intro partitions_loop_ok) blast
  then have "get_partitions xs k = Some (Inr (map (\<lambda>cw. projr (make_partition xs cw)) L))"
    using L(1) by (simp add: get_partitions_def)
  then show ?thesis using L by blast
qed

lemma codewords_loop_returns_nonzero:
  assumes "codewords_loop n k cws cw = Some y"
  shows "n \<noteq> 0"
proof (rule codewords_loop.raw_induct [where P = "\<lambda>n k cws cw y. n \<noteq> 0", OF _ assms])
  fix loop :: "nat \<Rightarrow> int \<Rightarrow> int list list \<Rightarrow> int list \<Rightarrow> int list list option"
    and n k cws cw y
  assume IH: "\<And>n k cws cw y. loop n k cws cw = Some y \<Longrightarrow> n \<noteq> 0"
    and eq: "(case inner_loop k cw n of
                Return \<Rightarrow> Some (cws @ [cw])
              | Break cw' \<Rightarrow> loop n k (cws @ [cw]) cw'
              | Exhausted cw' \<Rightarrow> loop n k (cws @ [cw]) cw') = Some y"
  show "n \<noteq> 0"
  proof
    assume "n = 0"
    with eq have "loop 0 k (cws @ [cw]) cw = Some y" by simp
    from IH [OF this] show False by simp
  qed
qed

lemma get_codewords_zero: "get_codewords 0 k = None"
proof (cases "get_codewords 0 k")
  case None
  then show ?thesis .
next
  case (Some y)
  then show ?thesis
    using codewords_loop_returns_nonzero [of 0 k "[]" "replicate 0 1" y]
    by (simp add: get_codewords_def)
qed

lemma get_partitions_empty: "get_partitions [] k = None"
  by (simp add: get_partitions_def get_codewords_zero)

lemma get_codewords_small_k:
  assumes "n \<noteq> 0" and "k \<le> 1"
  shows "get_codewords n k = Some [replicate n 1]"
proof -
  have l: "length (replicate n (1::int)) = n" by simp
  have "\<not> can_inc k (replicate n 1) s" if "s < n" for s
    using that assms(2) by (simp add: can_inc_def)
  with inner_loop_full [OF l assms(1), of k]
  have "inner_loop k (replicate n 1) n = Return" by blast
  then show ?thesis
    by (simp add: get_codewords_def codewords_loop.simps [of n k "[]" "replicate n 1"])
qed

lemma place_ones:
  "\<forall>i \<in> set is. i < length lst \<and> cw ! i = 1 \<Longrightarrow>
   place lst cw is [p] = Inr [p @ map ((!) lst) is]"
  by (induction "is" arbitrary: p) (simp_all add: py_index_def Let_def)

lemma make_partition_ones:
  assumes "lst \<noteq> []"
  shows "make_partition lst (replicate (length lst) 1) = Inr [lst]"
proof -
  let ?cw = "replicate (length lst) (1::int)"
  have ne: "?cw \<noteq> []" using assms by simp
  have M: "Max (set ?cw) = 1" using assms by simp
  have "\<forall>i \<in> set [0..<length lst]. i < length lst \<and> ?cw ! i = 1" by simp
  from place_ones [OF this, of "[]"]
  have "place lst ?cw [0..<length lst] [[]] = Inr [map ((!) lst) [0..<length lst]]" by simp
  then have "place lst ?cw [0..<length lst] [[]] = Inr [lst]" by (simp add: map_nth)
  then show ?thesis using ne M by (simp add: make_partition_def Let_def)
qed

text \<open>
  Claim C9. For every \<open>n \<ge> 1\<close> and every integer \<open>k\<close>, \<open>get_codewords n k\<close> returns a
  list; on a nonempty sequence \<open>get_partitions\<close> returns a list of partitions, without
  raising.
\<close>

theorem get_partitions_total:
  assumes "1 \<le> n" and "xs \<noteq> []"
  shows "(\<exists>codewords. get_codewords n k = Some codewords) \<and>
         (\<exists>partitions. get_partitions xs k = Some (Inr partitions))"
proof -
  have "n \<noteq> 0" using assms(1) by simp
  from get_codewords_enum [OF this, of k] have "\<exists>codewords. get_codewords n k = Some codewords"
    by blast
  moreover from get_partitions_enum [OF assms(2), of k]
  have "\<exists>partitions. get_partitions xs k = Some (Inr partitions)" by blast
  ultimately show ?thesis by blast
qed

theorem get_partitions_total_witness:
  "(\<exists>codewords. get_codewords 2 2 = Some codewords) \<and>
   (\<exists>partitions. get_partitions [(''a1'', 20 :: int), (''a2'', 10)] 2 = Some (Inr partitions))"
  by (rule get_partitions_total) simp_all

text \<open>
  Claim C7. For a nonempty sequence and \<open>k\<close> from \<open>1\<close> to its length, every partition
  that \<open>get_partitions\<close> returns has nonempty subsets whose concatenation holds exactly
  the elements of the sequence, as a multiset; when the elements are pairwise distinct
  the subsets are pairwise disjoint. It has between \<open>1\<close> and \<open>k\<close> subsets.
\<close>

theorem partitions_cover:
  assumes "xs \<noteq> []" and "1 \<le> k" and "k \<le> int (length xs)"
    and "get_partitions xs k = Some (Inr ps)" and "p \<in> set ps"
  shows "(\<forall>b \<in> set p. b \<noteq> []) \<and> mset (concat p) = mset xs \<and>
         (distinct xs \<longrightarrow>
            distinct (concat p) \<and>
            (\<forall>b \<in> set p. \<forall>b' \<in> set p. b \<noteq> b' \<longrightarrow> set b \<inter> set b' = {})) \<and>
         1 \<le> length p \<and> int (length p) \<le> k"
proof -
  from get_partitions_enum [OF assms(1), of k] obtain L where
    L: "set L = {x. length x = length xs \<and> rgs_from (max 1 k) 0 x}"
    and ps: "get_partitions xs k = Some (Inr (map (\<lambda>cw. projr (make_partition xs cw)) L))"
    by blast
  from ps assms(4,5) obtain cw where cw: "cw \<in> set L" and p: "p = projr (make_partition xs cw)"
    by auto
  have len: "length cw = length xs" and val: "rgs_from (max 1 k) 0 cw"
    using cw L by simp_all
  from make_partition_rgs [OF len assms(1) val] p have
    lp: "length p = nat (Max (set cw))" and ms: "mset (concat p) = mset xs"
    and ne: "\<forall>b \<in> set p. b \<noteq> []"
    by auto
  have cne: "cw \<noteq> []" using len assms(1) by auto
  have b: "\<forall>c \<in> set cw. 1 \<le> c \<and> c \<le> max 1 k" using rgs_from_bounds [OF val] by blast
  have "Max (set cw) \<in> set cw" using cne by simp
  then have M: "1 \<le> Max (set cw)" "Max (set cw) \<le> k" using b assms(2) by auto
  have d: "distinct (concat p) \<and>
           (\<forall>b \<in> set p. \<forall>b' \<in> set p. b \<noteq> b' \<longrightarrow> set b \<inter> set b' = {})" if "distinct xs"
  proof -
    have "distinct (concat p)" using mset_eq_imp_distinct_iff [OF ms] that by simp
    then show ?thesis by (auto simp: distinct_concat_iff)
  qed
  show ?thesis using ne ms d lp M by auto
qed

theorem partitions_cover_witness:
  "get_partitions [(''a1'', 20 :: int), (''a2'', 10)] 2 =
     Some (Inr [[[(''a1'', 20), (''a2'', 10)]], [[(''a1'', 20)], [(''a2'', 10)]]]) \<and>
   mset (concat [[(''a1'', 20 :: int)], [(''a2'', 10)]]) = mset [(''a1'', 20), (''a2'', 10)] \<and>
   distinct (concat [[(''a1'', 20 :: int)], [(''a2'', 10)]])"
proof -
  have e: "get_partitions [(''a1'', 20 :: int), (''a2'', 10)] 2 =
     Some (Inr [[[(''a1'', 20), (''a2'', 10)]], [[(''a1'', 20)], [(''a2'', 10)]]])"
    by code_simp
  have "[(''a1'', 20 :: int), (''a2'', 10)] \<noteq> []" "(1::int) \<le> 2"
    "2 \<le> int (length [(''a1'', 20 :: int), (''a2'', 10)])"
    "[[(''a1'', 20 :: int)], [(''a2'', 10)]]
       \<in> set [[[(''a1'', 20), (''a2'', 10)]], [[(''a1'', 20)], [(''a2'', 10)]]]"
    by simp_all
  from partitions_cover [OF this(1,2,3) e this(4)] e show ?thesis by simp
qed

text \<open>
  Claim C5, as amended. The generator has no error result: called with \<open>k < 1\<close> on a
  nonempty sequence it returns normally, with the single partition whose one subset is
  the whole sequence.
\<close>

theorem get_partitions_small_k:
  assumes "xs \<noteq> []" and "k < 1"
  shows "get_partitions xs k = Some (Inr [[xs]])"
proof -
  have "get_codewords (length xs) k = Some [replicate (length xs) 1]"
    by (rule get_codewords_small_k) (use assms in simp_all)
  then show ?thesis
    using make_partition_ones [OF assms(1)] by (simp add: get_partitions_def)
qed

theorem get_partitions_small_k_witness:
  "get_partitions [(''b1'', 19 :: int), (''b2'', 7), (''b3'', 3)] (- 1) =
     Some (Inr [[[(''b1'', 19), (''b2'', 7), (''b3'', 3)]]])"
  by (rule get_partitions_small_k) simp_all

text \<open>
  Claim C5 as stated fails: with \<open>k_max = 0\<close> the call returns a list of partitions
  instead of failing.
\<close>

theorem get_partitions_no_invalid_input:
  "get_partitions [(''a1'', 20 :: int), (''a2'', 10)] 0 = Some (Inr [[[(''a1'', 20), (''a2'', 10)]]])"
  by code_simp

subsection \<open>Counting the partitions\<close>

lemma stirling2_above: "n < k \<Longrightarrow> stirling2 n k = 0"
  by (induction n k rule: stirling2.induct) simp_all

lemma stirling2_rgs_count:
  "(\<Sum>j\<le>n. stirling2 n j * rgs_count r j) = rgs_count (n + r) 0"
proof (induction n arbitrary: r)
  case 0
  show ?case by simp
next
  case (Suc n)
  define g where "g j = j * stirling2 n j * rgs_count r j" for j
  have g0: "g 0 = 0" and gn: "g (Suc n) = 0"
    by (simp_all add: g_def stirling2_above)
  have "(\<Sum>j\<le>Suc n. g j) = g 0 + (\<Sum>j\<le>n. g (Suc j))"
    by (rule sum.atMost_Suc_shift)
  moreover have "(\<Sum>j\<le>Suc n. g j) = (\<Sum>j\<le>n. g j) + g (Suc n)"
    by simp
  ultimately have shift: "(\<Sum>j\<le>n. g (Suc j)) = (\<Sum>j\<le>n. g j)"
    using g0 gn by simp
  have "(\<Sum>j\<le>Suc n. stirling2 (Suc n) j * rgs_count r j)
          = stirling2 (Suc n) 0 * rgs_count r 0
            + (\<Sum>j\<le>n. stirling2 (Suc n) (Suc j) * rgs_count r (Suc j))"
    by (rule sum.atMost_Suc_shift)
  also have "\<dots> = (\<Sum>j\<le>n. g (Suc j) + stirling2 n j * rgs_count r (Suc j))"
    by (simp add: g_def algebra_simps)
  also have "\<dots> = (\<Sum>j\<le>n. g (Suc j)) + (\<Sum>j\<le>n. stirling2 n j * rgs_count r (Suc j))"
    by (rule sum.distrib)
  also have "\<dots> = (\<Sum>j\<le>n. g j) + (\<Sum>j\<le>n. stirling2 n j * rgs_count r (Suc j))"
    unfolding shift ..
  also have "\<dots> = (\<Sum>j\<le>n. g j + stirling2 n j * rgs_count r (Suc j))"
    by (rule sum.distrib [symmetric])
  also have "\<dots> = (\<Sum>j\<le>n. stirling2 n j * rgs_count (Suc r) j)"
    by (simp add: g_def algebra_simps)
  also have "\<dots> = rgs_count (n + Suc r) 0"
    by (rule Suc.IH)
  finally show ?case by simp
qed

lemma rgs_count_bell: "rgs_count n 0 = bell n"
  using stirling2_rgs_count [of n 0] by (simp add: bell_def)

lemma rgs_set_zero: "{x. length x = 0 \<and> rgs_from k m x} = {[]}"
  by auto

lemma rgs_set_Suc:
  "{x. length x = Suc r \<and> rgs_from k m x} =
     (\<Union>c \<in> {1..min (m + 1) k}. (#) c ` {x. length x = r \<and> rgs_from k (max m c) x})"
  by (auto simp: length_Suc_conv)

lemma finite_rgs_set: "finite {x. length x = r \<and> rgs_from k m x}"
proof (induction r arbitrary: m)
  case 0
  show ?case unfolding rgs_set_zero by simp
next
  case (Suc r)
  show ?case unfolding rgs_set_Suc using Suc.IH by blast
qed

lemma card_rgs_set:
  "int m + int r \<le> k \<Longrightarrow> card {x. length x = r \<and> rgs_from k (int m) x} = rgs_count r m"
proof (induction r arbitrary: m)
  case 0
  show ?case unfolding rgs_set_zero by simp
next
  case (Suc r)
  let ?A = "\<lambda>c. {x. length x = r \<and> rgs_from k (max (int m) c) x}"
  let ?I = "{1..int m + 1}"
  have mn: "min (int m + 1) k = int m + 1" using Suc.prems by simp
  have disj: "\<forall>c \<in> ?I. \<forall>d \<in> ?I. c \<noteq> d \<longrightarrow> (#) c ` ?A c \<inter> (#) d ` ?A d = {}"
    by auto
  have fin: "\<forall>c \<in> ?I. finite ((#) c ` ?A c)"
    using finite_rgs_set by blast
  have "card {x. length x = Suc r \<and> rgs_from k (int m) x} = card (\<Union>c \<in> ?I. (#) c ` ?A c)"
    unfolding rgs_set_Suc mn ..
  also have "\<dots> = (\<Sum>c \<in> ?I. card ((#) c ` ?A c))"
    by (rule card_UN_disjoint [OF _ fin disj]) simp
  also have "\<dots> = (\<Sum>c \<in> ?I. card (?A c))"
    by (rule sum.cong) (simp_all add: card_image)
  also have "?I = insert (int m + 1) {1..int m}"
    by auto
  also have "(\<Sum>c \<in> insert (int m + 1) {1..int m}. card (?A c))
               = card (?A (int m + 1)) + (\<Sum>c \<in> {1..int m}. card (?A c))"
    by (rule sum.insert) simp_all
  also have "(\<Sum>c \<in> {1..int m}. card (?A c))
               = (\<Sum>c \<in> {1..int m}. card {x. length x = r \<and> rgs_from k (int m) x})"
    by (rule sum.cong) (simp_all add: max.absorb1)
  also have "\<dots> = m * card {x. length x = r \<and> rgs_from k (int m) x}"
    by simp
  also have "card {x. length x = r \<and> rgs_from k (int m) x} = rgs_count r m"
    by (rule Suc.IH) (use Suc.prems in simp)
  also have "?A (int m + 1) = {x. length x = r \<and> rgs_from k (int (Suc m)) x}"
    by (simp add: max_def add.commute)
  also have "card {x. length x = r \<and> rgs_from k (int (Suc m)) x} = rgs_count r (Suc m)"
    by (rule Suc.IH) (use Suc.prems in simp)
  finally show ?case by simp
qed

lemma card_rgs_bell:
  "card {x. length x = n \<and> rgs_from (int n) 0 x} = bell n"
  using card_rgs_set [of 0 n "int n"] by (simp add: rgs_count_bell)

lemma place_members:
  assumes "\<forall>i \<in> set is. i < length lst \<and> 1 \<le> cw ! i \<and> cw ! i \<le> int (length part)"
    and "place lst cw is part = Inr res"
  shows "(\<forall>j < length part. set (part ! j) \<subseteq> set (res ! j)) \<and>
         (\<forall>i \<in> set is. lst ! i \<in> set (res ! nat (cw ! i - 1)))"
  using assms
proof (induction "is" arbitrary: part)
  case Nil
  then show ?case by simp
next
  case (Cons i "is")
  let ?j = "nat (cw ! i - 1)"
  let ?part = "part[?j := part ! ?j @ [lst ! i]]"
  have i: "i < length lst" "1 \<le> cw ! i" "cw ! i \<le> int (length part)"
    using Cons.prems(1) by simp_all
  have j: "?j < length part" using i(2,3) by linarith
  have idx: "py_index (length part) (cw ! i - 1) = Inr ?j"
    by (rule py_index_in_range [OF i(2,3)])
  have step: "place lst cw is ?part = Inr res"
    using Cons.prems(2) i(1) idx by (simp add: Let_def)
  have "\<forall>i \<in> set is. i < length lst \<and> 1 \<le> cw ! i \<and> cw ! i \<le> int (length ?part)"
    using Cons.prems(1) by simp
  from Cons.IH [OF this step] have
    grow: "\<forall>j < length ?part. set (?part ! j) \<subseteq> set (res ! j)"
    and mem: "\<forall>i \<in> set is. lst ! i \<in> set (res ! nat (cw ! i - 1))"
    by simp_all
  have sub: "set (part ! j') \<subseteq> set (?part ! j')" if "j' < length part" for j'
    using that by (cases "j' = ?j") auto
  have g: "\<forall>j' < length part. set (part ! j') \<subseteq> set (res ! j')"
    using sub grow by fastforce
  have "lst ! i \<in> set (?part ! ?j)" using j by simp
  then have "lst ! i \<in> set (res ! ?j)" using grow j by auto
  then show ?case using g mem by simp
qed

lemma make_partition_members:
  assumes "length cw = length lst" and "cw \<noteq> []" and "\<forall>c \<in> set cw. 1 \<le> c"
    and "make_partition lst cw = Inr p" and "i < length lst"
  shows "lst ! i \<in> set (p ! nat (cw ! i - 1)) \<and> nat (cw ! i - 1) < length p"
proof -
  let ?M = "Max (set cw)"
  let ?part = "replicate (nat ?M) ([] :: 'a list)"
  have le: "\<forall>c \<in> set cw. c \<le> ?M" by simp
  have ci: "cw ! i \<in> set cw" using assms(1,5) by simp
  have c1: "1 \<le> cw ! i" and c2: "cw ! i \<le> ?M" using ci assms(3) le by blast+
  have pre: "\<forall>i \<in> set [0..<length cw]. i < length lst \<and> 1 \<le> cw ! i \<and> cw ! i \<le> int (length ?part)"
    using assms(1,3) c1 c2 by simp
  have run: "place lst cw [0..<length cw] ?part = Inr p"
    using assms(2,4) by (simp add: make_partition_def Let_def)
  from place_members [OF pre run] have "lst ! i \<in> set (p ! nat (cw ! i - 1))"
    using assms(1,5) by simp
  moreover from make_partition_ok [OF assms(1,2,3)] assms(4) have "length p = nat ?M" by simp
  ultimately show ?thesis using c1 c2 by simp
qed

lemma distinct_concat_nth_less:
  "distinct (concat p) \<Longrightarrow> a < a' \<Longrightarrow> a' < length p \<Longrightarrow> set (p ! a) \<inter> set (p ! a') = {}"
proof (induction p arbitrary: a a')
  case Nil
  then show ?case by simp
next
  case (Cons b p)
  from Cons.prems(2) obtain a1 where a': "a' = Suc a1" by (cases a') auto
  have d: "distinct (concat p)" and bd: "set b \<inter> set (concat p) = {}"
    using Cons.prems(1) by auto
  show ?case
  proof (cases a)
    case 0
    have "a1 < length p" using Cons.prems(3) a' by simp
    then have "p ! a1 \<in> set p" by simp
    then have "set (p ! a1) \<subseteq> set (concat p)" by auto
    then show ?thesis using bd 0 a' by auto
  next
    case (Suc a0)
    have "set (p ! a0) \<inter> set (p ! a1) = {}"
      by (rule Cons.IH [OF d]) (use Cons.prems(2,3) Suc a' in simp_all)
    then show ?thesis using Suc a' by simp
  qed
qed

lemma distinct_concat_nth:
  assumes "distinct (concat p)" and "a < length p" and "a' < length p"
    and "x \<in> set (p ! a)" and "x \<in> set (p ! a')"
  shows "a = a'"
proof (rule ccontr)
  assume "a \<noteq> a'"
  then consider "a < a'" | "a' < a" by linarith
  then show False
  proof cases
    case 1
    from distinct_concat_nth_less [OF assms(1) 1 assms(3)] assms(4,5) show False by blast
  next
    case 2
    from distinct_concat_nth_less [OF assms(1) 2 assms(2)] assms(4,5) show False by blast
  qed
qed

lemma make_partition_inj:
  assumes "distinct lst" and "lst \<noteq> []"
    and "length cw = length lst" and "rgs_from k 0 cw"
    and "length cw' = length lst" and "rgs_from k 0 cw'"
    and "projr (make_partition lst cw) = projr (make_partition lst cw')"
  shows "cw = cw'"
proof -
  have ne: "cw \<noteq> []" "cw' \<noteq> []" using assms(2,3,5) by auto
  have b: "\<forall>c \<in> set cw. 1 \<le> c" "\<forall>c \<in> set cw'. 1 \<le> c"
    using rgs_from_bounds [OF assms(4)] rgs_from_bounds [OF assms(6)] by blast+
  from make_partition_rgs [OF assms(3,2,4)] obtain p where
    p: "make_partition lst cw = Inr p" "mset (concat p) = mset lst" by blast
  from make_partition_rgs [OF assms(5,2,6)] obtain p' where
    p': "make_partition lst cw' = Inr p'" by blast
  have same: "p' = p" using assms(7) p(1) p' by simp
  have d: "distinct (concat p)" using mset_eq_imp_distinct_iff [OF p(2)] assms(1) by simp
  have "cw ! i = cw' ! i" if "i < length cw" for i
  proof -
    have il: "i < length lst" using that assms(3) by simp
    from make_partition_members [OF assms(3) ne(1) b(1) p(1) il]
    have m1: "lst ! i \<in> set (p ! nat (cw ! i - 1))" "nat (cw ! i - 1) < length p" by simp_all
    from make_partition_members [OF assms(5) ne(2) b(2) p' il] same
    have m2: "lst ! i \<in> set (p ! nat (cw' ! i - 1))" "nat (cw' ! i - 1) < length p" by simp_all
    from distinct_concat_nth [OF d m1(2) m2(2) m1(1) m2(1)]
    have "nat (cw ! i - 1) = nat (cw' ! i - 1)" .
    moreover have "1 \<le> cw ! i" "1 \<le> cw' ! i" using b that assms(3,5) by simp_all
    ultimately show ?thesis by linarith
  qed
  then show ?thesis using assms(3,5) by (intro nth_equalityI) simp_all
qed

text \<open>
  Claim C6. For a nonempty sequence of \<open>n\<close> elements and \<open>k_max = n\<close>, the codewords
  generated are, without repetition, exactly the restricted growth strings of length
  \<open>n\<close>, and the number of partitions returned is the \<open>n\<close>-th Bell number; when the
  elements are pairwise distinct no partition is returned twice.
\<close>

theorem partitions_count_bell:
  assumes "xs \<noteq> []"
  shows "\<exists>codewords partitions.
           get_codewords (length xs) (int (length xs)) = Some codewords \<and>
           distinct codewords \<and>
           set codewords = {c. length c = length xs \<and> rgs_from (int (length xs)) 0 c} \<and>
           get_partitions xs (int (length xs)) = Some (Inr partitions) \<and>
           length partitions = bell (length xs) \<and>
           (distinct xs \<longrightarrow> distinct partitions)"
proof -
  let ?n = "length xs"
  let ?f = "\<lambda>cw. projr (make_partition xs cw)"
  have mx: "max 1 (int ?n) = int ?n" using assms by (cases xs) auto
  from get_partitions_enum [OF assms, of "int ?n"] obtain L where
    L: "get_codewords ?n (int ?n) = Some L" "sorted_wrt (<) L"
       "set L = {x. length x = ?n \<and> rgs_from (int ?n) 0 x}"
       "get_partitions xs (int ?n) = Some (Inr (map ?f L))"
    unfolding mx by blast
  have dL: "distinct L" using L(2) strict_sorted_iff by blast
  have "length (map ?f L) = card (set L)" using distinct_card [OF dL] by simp
  also have "\<dots> = bell ?n" unfolding L(3) by (rule card_rgs_bell)
  finally have len: "length (map ?f L) = bell ?n" .
  have dp: "distinct (map ?f L)" if "distinct xs"
  proof -
    have "inj_on ?f (set L)"
    proof (rule inj_onI)
      fix cw cw' assume "cw \<in> set L" "cw' \<in> set L" "?f cw = ?f cw'"
      then show "cw = cw'"
        using make_partition_inj [OF that assms, of cw "int ?n" cw'] unfolding L(3) by simp
    qed
    then show ?thesis using dL by (simp add: distinct_map)
  qed
  show ?thesis using L(1,3,4) dL len dp by blast
qed

theorem partitions_count_bell_witness:
  "\<exists>partitions. get_partitions [(''b1'', 19 :: int), (''b2'', 7), (''b3'', 3)] 3
                   = Some (Inr partitions) \<and>
                 length partitions = 5 \<and> distinct partitions"
proof -
  have b: "bell (length [(''b1'', 19 :: int), (''b2'', 7), (''b3'', 3)]) = 5" by code_simp
  have l: "int (length [(''b1'', 19 :: int), (''b2'', 7), (''b3'', 3)]) = 3" by simp
  have d: "distinct [(''b1'', 19 :: int), (''b2'', 7), (''b3'', 3)]" by simp
  have "[(''b1'', 19 :: int), (''b2'', 7), (''b3'', 3)] \<noteq> []" by simp
  from partitions_count_bell [OF this] show ?thesis
    unfolding b l using d by blast
qed

subsection \<open>get_acceptable_partitions\<close>

lemma permutations_length_aux:
  "length xs = n \<Longrightarrow> p \<in> set (permutations xs) \<Longrightarrow> length p = n"
proof (induction n arbitrary: xs p)
  case 0
  then show ?case by simp
next
  case (Suc n)
  then obtain x xs' where xs: "xs = x # xs'" by (cases xs) auto
  from Suc.prems(2) obtain i q where i: "i < Suc (length xs')"
    and q: "q \<in> set (permutations (take i (x # xs') @ drop i xs'))"
    and p: "p = (x # xs') ! i # q"
    unfolding xs by (auto simp del: upt_Suc)
  have "length (take i (x # xs') @ drop i xs') = n"
    using i Suc.prems(1) xs by auto
  from Suc.IH [OF this q] p show ?case by simp
qed

lemma permutations_length:
  "p \<in> set (permutations xs) \<Longrightarrow> length p = length xs"
  by (rule permutations_length_aux [OF refl])

lemma pairs_loop_True:
  "pairs_loop ip oo f is = Inr True \<Longrightarrow> i \<in> set is \<Longrightarrow>
     i < length ip \<and> i < length oo \<and> is_connectable (ip ! i) (oo ! i) f"
  by (induction "is") (auto simp: Let_def split: if_splits)

lemma pairs_loop_within_fee:
  assumes "pairs_loop ip oo f [0..<k] = Inr True" and "length ip = k" and "length oo = k"
  shows "within_fee f (ip, oo)"
  unfolding within_fee_def
proof (intro conjI allI impI)
  show "length (fst (ip, oo)) = length (snd (ip, oo))" using assms by simp
next
  fix i assume "i < length (fst (ip, oo))"
  then have "i \<in> set [0..<k]" using assms by simp
  from pairs_loop_True [OF assms(1) this]
  have c: "is_connectable (ip ! i) (oo ! i) f" by simp
  then show "0 \<le> sum_list (map snd (fst (ip, oo) ! i)) - sum_list (map snd (snd (ip, oo) ! i))"
    by (simp add: is_connectable_def Let_def)
  from c show "sum_list (map snd (fst (ip, oo) ! i)) - sum_list (map snd (snd (ip, oo) ! i)) \<le> f"
    by (simp add: is_connectable_def Let_def)
qed

lemma orderings_loop_within_fee:
  assumes "orderings_loop k ip f oos acc = Inr res"
    and "length ip = k"
    and "\<forall>oo \<in> set oos. length oo = k"
    and "\<forall>ap \<in> set acc. within_fee f ap"
  shows "\<forall>ap \<in> set res. within_fee f ap"
  using assms(1,3,4)
proof (induction oos arbitrary: acc)
  case Nil
  then show ?case by simp
next
  case (Cons oo oos)
  from Cons.prems(1) obtain b where b: "pairs_loop ip oo f [0..<k] = Inr b"
    and rest: "orderings_loop k ip f oos (if b then acc @ [(ip, oo)] else acc) = Inr res"
    by (cases "pairs_loop ip oo f [0..<k]") simp_all
  have len: "length oo = k" using Cons.prems(2) by simp
  have acc': "\<forall>ap \<in> set (if b then acc @ [(ip, oo)] else acc). within_fee f ap"
  proof (cases b)
    case True
    then have "within_fee f (ip, oo)"
      using pairs_loop_within_fee [OF _ assms(2) len] b by simp
    then show ?thesis using True Cons.prems(3) by simp
  next
    case False
    then show ?thesis using Cons.prems(3) by simp
  qed
  have rest_len: "\<forall>oo \<in> set oos. length oo = k" using Cons.prems(2) by simp
  show ?case by (rule Cons.IH [OF rest rest_len acc'])
qed

lemma get_acceptable_connections_within_fee:
  assumes "get_acceptable_connections k ip opn f = Inr res"
    and "length ip = k" and "length opn = k"
  shows "\<forall>ap \<in> set res. within_fee f ap"
proof -
  have l: "\<forall>oo \<in> set (permutations opn). length oo = k"
    using permutations_length assms(3) by blast
  have r: "orderings_loop k ip f (permutations opn) [] = Inr res"
    using assms(1) by (simp add: get_acceptable_connections_def)
  have e: "\<forall>ap \<in> set ([] :: acceptable_partition list). within_fee f ap" by simp
  show ?thesis by (rule orderings_loop_within_fee [OF r assms(2) l e])
qed

lemma outputs_loop_within_fee:
  assumes "outputs_loop k ip f ops acc = Inr res"
    and "length ip = k"
    and "\<forall>opn \<in> set ops. length opn = k"
    and "\<forall>ap \<in> set acc. within_fee f ap"
  shows "\<forall>ap \<in> set res. within_fee f ap"
  using assms(1,3,4)
proof (induction ops arbitrary: acc)
  case Nil
  then show ?case by simp
next
  case (Cons opn ops)
  from Cons.prems(1) obtain conns where c: "get_acceptable_connections k ip opn f = Inr conns"
    and rest: "outputs_loop k ip f ops (acc @ conns) = Inr res"
    by (cases "get_acceptable_connections k ip opn f") simp_all
  have len: "length opn = k" using Cons.prems(2) by simp
  have "\<forall>ap \<in> set conns. within_fee f ap"
    by (rule get_acceptable_connections_within_fee [OF c assms(2) len])
  then have acc': "\<forall>ap \<in> set (acc @ conns). within_fee f ap"
    using Cons.prems(3) by auto
  have rest_len: "\<forall>opn \<in> set ops. length opn = k" using Cons.prems(2) by simp
  show ?case by (rule Cons.IH [OF rest rest_len acc'])
qed

lemma inputs_loop_within_fee:
  assumes "inputs_loop k outs f ips acc = Inr res"
    and "\<forall>ip \<in> set ips. length ip = k"
    and "\<And>b opn. outs k = Some b \<Longrightarrow> opn \<in> set b \<Longrightarrow> length opn = k"
    and "\<forall>ap \<in> set acc. within_fee f ap"
  shows "\<forall>ap \<in> set res. within_fee f ap"
  using assms(1,2,4)
proof (induction ips arbitrary: acc)
  case Nil
  then show ?case by simp
next
  case (Cons ip ips)
  from Cons.prems(1) obtain b where b: "outs k = Some b"
    by (cases "outs k") simp_all
  from Cons.prems(1) b obtain acc' where o: "outputs_loop k ip f b acc = Inr acc'"
    and rest: "inputs_loop k outs f ips acc' = Inr res"
    by (cases "outputs_loop k ip f b acc") simp_all
  have len: "length ip = k" using Cons.prems(2) by simp
  have bl: "\<forall>opn \<in> set b. length opn = k" using assms(3) [OF b] by blast
  have acc': "\<forall>ap \<in> set acc'. within_fee f ap"
    by (rule outputs_loop_within_fee [OF o len bl Cons.prems(3)])
  have rest_len: "\<forall>ip \<in> set ips. length ip = k" using Cons.prems(2) by simp
  show ?case by (rule Cons.IH [OF rest rest_len acc'])
qed

lemma sizes_loop_within_fee:
  assumes "sizes_loop ins outs f ks acc = Inr res"
    and "\<And>k b p. ins k = Some b \<Longrightarrow> p \<in> set b \<Longrightarrow> length p = k"
    and "\<And>k b p. outs k = Some b \<Longrightarrow> p \<in> set b \<Longrightarrow> length p = k"
    and "\<forall>ap \<in> set acc. within_fee f ap"
  shows "\<forall>ap \<in> set res. within_fee f ap"
  using assms(1,4)
proof (induction ks arbitrary: acc)
  case Nil
  then show ?case by simp
next
  case (Cons k ks)
  from Cons.prems(1) obtain b where b: "ins k = Some b"
    by (cases "ins k") simp_all
  from Cons.prems(1) b obtain acc' where o: "inputs_loop k outs f b acc = Inr acc'"
    and rest: "sizes_loop ins outs f ks acc' = Inr res"
    by (cases "inputs_loop k outs f b acc") simp_all
  have bl: "\<forall>ip \<in> set b. length ip = k" using assms(2) [OF b] by blast
  have acc': "\<forall>ap \<in> set acc'. within_fee f ap"
    by (rule inputs_loop_within_fee [OF o bl assms(3) Cons.prems(2)])
  show ?case by (rule Cons.IH [OF rest acc'])
qed

lemma group_step:
  "foldl (\<lambda>partition_dict part.
              let sz = length part
              in case partition_dict sz of
                   Some bucket \<Rightarrow> partition_dict(sz \<mapsto> bucket @ [part])
                 | None \<Rightarrow> partition_dict(sz \<mapsto> [part])) d ps k =
   (case d k of
      None \<Rightarrow> (if filter (\<lambda>p. length p = k) ps = [] then None
                else Some (filter (\<lambda>p. length p = k) ps))
    | Some b \<Rightarrow> Some (b @ filter (\<lambda>p. length p = k) ps))"
  by (induction ps arbitrary: d) (auto simp: Let_def split: option.splits)

lemma group_partitions_by_size_lookup:
  "group_partitions_by_size ps k =
     (if filter (\<lambda>p. length p = k) ps = [] then None
      else Some (filter (\<lambda>p. length p = k) ps))"
  unfolding group_partitions_by_size_def group_step by simp

lemma group_partitions_by_size_length:
  "group_partitions_by_size ps k = Some b \<Longrightarrow> p \<in> set b \<Longrightarrow> length p = k"
  by (auto simp: group_partitions_by_size_lookup split: if_splits)

text \<open>
  Claim C4. Every acceptable partition that \<open>get_acceptable_partitions\<close> returns pairs
  two partitions with as many subsets, and the flow of every index-aligned pair of
  subsets is at least \<open>0\<close> and at most the transaction's fee.
\<close>

theorem acceptable_partitions_within_fee:
  assumes "get_acceptable_partitions tx = Some (Inr aps)"
    and "(input_partition, output_partition) \<in> set aps"
  shows "length input_partition = length output_partition \<and>
         (\<forall>i < length input_partition.
            0 \<le> sum_list (map snd (input_partition ! i))
                  - sum_list (map snd (output_partition ! i)) \<and>
            sum_list (map snd (input_partition ! i))
              - sum_list (map snd (output_partition ! i)) \<le> fee tx)"
proof -
  define m where "m = min (length (inputs tx)) (length (outputs tx))"
  from assms(1) obtain ips where i: "get_partitions (inputs tx) (int m) = Some (Inr ips)"
    unfolding get_acceptable_partitions_def Let_def m_def
    by (cases "get_partitions (inputs tx) (int (min (length (inputs tx)) (length (outputs tx))))")
       (simp_all split: sum.splits)
  from assms(1) i obtain ops where o: "get_partitions (outputs tx) (int m) = Some (Inr ops)"
    unfolding get_acceptable_partitions_def Let_def m_def
    by (cases "get_partitions (outputs tx) (int (min (length (inputs tx)) (length (outputs tx))))")
       (simp_all split: sum.splits)
  have s: "sizes_loop (group_partitions_by_size ips) (group_partitions_by_size ops) (fee tx)
          [2..<m + 1] [] = Inr aps"
    using assms(1) i o unfolding get_acceptable_partitions_def Let_def m_def by simp
  have e: "\<forall>ap \<in> set ([] :: acceptable_partition list). within_fee (fee tx) ap" by simp
  have "\<forall>ap \<in> set aps. within_fee (fee tx) ap"
    by (rule sizes_loop_within_fee [OF s group_partitions_by_size_length
          group_partitions_by_size_length e])
  then have "within_fee (fee tx) (input_partition, output_partition)"
    using assms(2) by blast
  then show ?thesis by (simp add: within_fee_def)
qed

theorem acceptable_partitions_within_fee_witness:
  "get_acceptable_partitions figure6 =
     Some (Inr [([[(''a1'', 20)], [(''a2'', 10)]], [[(''b1'', 19)], [(''b2'', 7), (''b3'', 3)]])]) \<and>
   length ([[(''a1'', 20)], [(''a2'', 10)]] :: partition)
     = length ([[(''b1'', 19)], [(''b2'', 7), (''b3'', 3)]] :: partition) \<and>
   0 \<le> sum_list (map snd [(''a1'', 20 :: int)]) - sum_list (map snd [(''b1'', 19 :: int)]) \<and>
   sum_list (map snd [(''a1'', 20 :: int)]) - sum_list (map snd [(''b1'', 19 :: int)])
     \<le> fee figure6 \<and>
   0 \<le> sum_list (map snd [(''a2'', 10 :: int)])
         - sum_list (map snd [(''b2'', 7 :: int), (''b3'', 3)]) \<and>
   sum_list (map snd [(''a2'', 10 :: int)]) - sum_list (map snd [(''b2'', 7 :: int), (''b3'', 3)])
     \<le> fee figure6"
proof -
  have e: "get_acceptable_partitions figure6 =
     Some (Inr [([[(''a1'', 20)], [(''a2'', 10)]], [[(''b1'', 19)], [(''b2'', 7), (''b3'', 3)]])])"
    unfolding figure6_def by code_simp
  have m: "([[(''a1'', 20)], [(''a2'', 10)]], [[(''b1'', 19)], [(''b2'', 7), (''b3'', 3)]])
             \<in> set [([[(''a1'', 20)], [(''a2'', 10)]], [[(''b1'', 19)], [(''b2'', 7), (''b3'', 3)]])]"
    by simp
  note t = acceptable_partitions_within_fee [OF e m]
  from t have l: "length ([[(''a1'', 20)], [(''a2'', 10)]] :: partition)
     = length ([[(''b1'', 19)], [(''b2'', 7), (''b3'', 3)]] :: partition)"
    by blast
  from t [THEN conjunct2, rule_format, of 0]
  have p0: "0 \<le> sum_list (map snd [(''a1'', 20 :: int)]) - sum_list (map snd [(''b1'', 19 :: int)]) \<and>
   sum_list (map snd [(''a1'', 20 :: int)]) - sum_list (map snd [(''b1'', 19 :: int)])
     \<le> fee figure6"
    by simp
  from t [THEN conjunct2, rule_format, of 1]
  have p1: "0 \<le> sum_list (map snd [(''a2'', 10 :: int)])
         - sum_list (map snd [(''b2'', 7 :: int), (''b3'', 3)]) \<and>
   sum_list (map snd [(''a2'', 10 :: int)]) - sum_list (map snd [(''b2'', 7 :: int), (''b3'', 3)])
     \<le> fee figure6"
    by simp
  show ?thesis using e l p0 p1 by blast
qed

subsection \<open>Where the matcher and the simplifier return\<close>

lemma pairs_loop_returns:
  "\<forall>i \<in> set is. i < length ip \<and> i < length oo \<Longrightarrow> \<exists>b. pairs_loop ip oo f is = Inr b"
  by (induction "is") (auto simp: Let_def)

lemma orderings_loop_returns:
  assumes "length ip = k" and "ip \<noteq> []"
    and "\<forall>oo \<in> set oos. length oo = k" and "\<forall>ap \<in> set acc. paired ap"
  shows "\<exists>res. orderings_loop k ip f oos acc = Inr res \<and> (\<forall>ap \<in> set res. paired ap)"
  using assms(3,4)
proof (induction oos arbitrary: acc)
  case Nil
  then show ?case by simp
next
  case (Cons oo oos)
  have len: "length oo = k" using Cons.prems(1) by simp
  have "\<forall>i \<in> set [0..<k]. i < length ip \<and> i < length oo" using assms(1) len by simp
  from pairs_loop_returns [OF this] obtain b where b: "pairs_loop ip oo f [0..<k] = Inr b"
    by blast
  have acc': "\<forall>ap \<in> set (if b then acc @ [(ip, oo)] else acc). paired ap"
    using Cons.prems(2) assms(1,2) len by (simp add: paired_def)
  have rest: "\<forall>oo \<in> set oos. length oo = k" using Cons.prems(1) by simp
  from Cons.IH [OF rest acc'] show ?case using b by simp
qed

lemma get_acceptable_connections_returns:
  assumes "length ip = k" and "ip \<noteq> []" and "length opn = k"
  shows "\<exists>res. get_acceptable_connections k ip opn f = Inr res \<and> (\<forall>ap \<in> set res. paired ap)"
proof -
  have l: "\<forall>oo \<in> set (permutations opn). length oo = k"
    using permutations_length assms(3) by blast
  have e: "\<forall>ap \<in> set ([] :: acceptable_partition list). paired ap" by simp
  from orderings_loop_returns [OF assms(1,2) l e] show ?thesis
    by (simp add: get_acceptable_connections_def)
qed

lemma outputs_loop_returns:
  assumes "length ip = k" and "ip \<noteq> []"
    and "\<forall>opn \<in> set ops. length opn = k" and "\<forall>ap \<in> set acc. paired ap"
  shows "\<exists>res. outputs_loop k ip f ops acc = Inr res \<and> (\<forall>ap \<in> set res. paired ap)"
  using assms(3,4)
proof (induction ops arbitrary: acc)
  case Nil
  then show ?case by simp
next
  case (Cons opn ops)
  have len: "length opn = k" using Cons.prems(1) by simp
  from get_acceptable_connections_returns [OF assms(1,2) len] obtain conns where
    c: "get_acceptable_connections k ip opn f = Inr conns" and p: "\<forall>ap \<in> set conns. paired ap"
    by blast
  have acc': "\<forall>ap \<in> set (acc @ conns). paired ap" using Cons.prems(2) p by auto
  have rest: "\<forall>opn \<in> set ops. length opn = k" using Cons.prems(1) by simp
  from Cons.IH [OF rest acc'] show ?case using c by simp
qed

lemma inputs_loop_returns:
  assumes "k \<noteq> 0" and "outs k = Some b" and "\<forall>opn \<in> set b. length opn = k"
    and "\<forall>ip \<in> set ips. length ip = k" and "\<forall>ap \<in> set acc. paired ap"
  shows "\<exists>res. inputs_loop k outs f ips acc = Inr res \<and> (\<forall>ap \<in> set res. paired ap)"
  using assms(4,5)
proof (induction ips arbitrary: acc)
  case Nil
  then show ?case by simp
next
  case (Cons ip ips)
  have len: "length ip = k" using Cons.prems(1) by simp
  have ne: "ip \<noteq> []" using len assms(1) by auto
  from outputs_loop_returns [OF len ne assms(3) Cons.prems(2)] obtain acc' where
    o: "outputs_loop k ip f b acc = Inr acc'" and p: "\<forall>ap \<in> set acc'. paired ap"
    by blast
  have rest: "\<forall>ip \<in> set ips. length ip = k" using Cons.prems(1) by simp
  from Cons.IH [OF rest p] show ?case using o assms(2) by simp
qed

lemma sizes_loop_returns:
  assumes "\<forall>k \<in> set ks. k \<noteq> 0 \<and> (\<exists>b. ins k = Some b \<and> (\<forall>p \<in> set b. length p = k)) \<and>
                             (\<exists>b. outs k = Some b \<and> (\<forall>p \<in> set b. length p = k))"
    and "\<forall>ap \<in> set acc. paired ap"
  shows "\<exists>res. sizes_loop ins outs f ks acc = Inr res \<and> (\<forall>ap \<in> set res. paired ap)"
  using assms
proof (induction ks arbitrary: acc)
  case Nil
  then show ?case by simp
next
  case (Cons k ks)
  from Cons.prems(1) obtain bi bo where k: "k \<noteq> 0"
    and bi: "ins k = Some bi" "\<forall>p \<in> set bi. length p = k"
    and bo: "outs k = Some bo" "\<forall>p \<in> set bo. length p = k"
    by auto
  from inputs_loop_returns [where outs = outs and k = k, OF k bo(1) bo(2) bi(2) Cons.prems(2)]
  obtain acc' where
    i: "inputs_loop k outs f bi acc = Inr acc'" and p: "\<forall>ap \<in> set acc'. paired ap"
    by blast
  have rest: "\<forall>k \<in> set ks. k \<noteq> 0 \<and> (\<exists>b. ins k = Some b \<and> (\<forall>p \<in> set b. length p = k)) \<and>
                             (\<exists>b. outs k = Some b \<and> (\<forall>p \<in> set b. length p = k))"
    using Cons.prems(1) by simp
  from Cons.IH [OF rest p] show ?case using i bi(1) by simp
qed

lemma staircase_rgs:
  "int k \<le> B \<Longrightarrow> j \<le> k \<Longrightarrow> 1 \<le> B \<Longrightarrow>
   rgs_from B (int j) (map int [Suc j..<Suc k] @ replicate r 1)"
proof (induction "k - j" arbitrary: j)
  case 0
  then have "j = k" by simp
  then show ?case using rgs_from_ones [of "int k" B r] "0.prems"(3) by simp
next
  case (Suc d)
  then have lt: "j < k" by simp
  have d: "d = k - Suc j" using Suc.hyps(2) by simp
  have up: "[Suc j..<Suc k] = Suc j # [Suc (Suc j)..<Suc k]"
    using lt by (simp add: upt_conv_Cons)
  have IH: "rgs_from B (int (Suc j)) (map int [Suc (Suc j)..<Suc k] @ replicate r 1)"
    by (rule Suc.hyps(1) [OF d Suc.prems(1) _ Suc.prems(3)]) (use lt in simp)
  have "int (Suc j) \<le> B" using lt Suc.prems(1) by simp
  then show ?case unfolding up using IH by (simp add: max_def)
qed

lemma partition_of_size:
  assumes "xs \<noteq> []" and "1 \<le> k" and "k \<le> m" and "m \<le> length xs"
    and "get_partitions xs (int m) = Some (Inr ps)"
  shows "\<exists>p \<in> set ps. length p = k"
proof -
  let ?n = "length xs"
  let ?cw = "map int [Suc 0..<Suc k] @ replicate (?n - k) 1"
  let ?f = "\<lambda>cw. projr (make_partition xs cw)"
  from get_partitions_enum [OF assms(1), of "int m"] assms(5) obtain L where
    L: "set L = {x. length x = ?n \<and> rgs_from (max 1 (int m)) 0 x}" and ps: "ps = map ?f L"
    by auto
  have len: "length ?cw = ?n" using assms(2,3,4) by simp
  have val: "rgs_from (max 1 (int m)) 0 ?cw"
    using staircase_rgs [of k "max 1 (int m)" 0 "?n - k"] assms(3) by simp
  have "?cw \<in> set L" using L len val by simp
  then have mem: "?f ?cw \<in> set ps" unfolding ps by simp
  have M: "Max (set ?cw) = int k"
  proof (rule Max_eqI)
    show "finite (set ?cw)" by simp
    show "y \<le> int k" if "y \<in> set ?cw" for y using that assms(2) by auto
    show "int k \<in> set ?cw" using assms(2) by auto
  qed
  from make_partition_rgs [OF len assms(1) val] have "length (?f ?cw) = nat (Max (set ?cw))"
    by auto
  then have "length (?f ?cw) = k" unfolding M by simp
  then show ?thesis using mem by blast
qed

lemma bucket_exists:
  assumes "xs \<noteq> []" and "1 \<le> k" and "k \<le> m" and "m \<le> length xs"
    and "get_partitions xs (int m) = Some (Inr ps)"
  shows "\<exists>b. group_partitions_by_size ps k = Some b \<and> (\<forall>p \<in> set b. length p = k)"
proof -
  from partition_of_size [OF assms] have "filter (\<lambda>p. length p = k) ps \<noteq> []"
    by (simp add: filter_empty_conv)
  then show ?thesis by (simp add: group_partitions_by_size_lookup)
qed

lemma get_acceptable_partitions_returns:
  assumes "inputs tx \<noteq> []" and "outputs tx \<noteq> []"
  shows "\<exists>aps. get_acceptable_partitions tx = Some (Inr aps) \<and> (\<forall>ap \<in> set aps. paired ap)"
proof -
  define m where "m = min (length (inputs tx)) (length (outputs tx))"
  from get_partitions_enum [OF assms(1), of "int m"] obtain ips where
    i: "get_partitions (inputs tx) (int m) = Some (Inr ips)" by blast
  from get_partitions_enum [OF assms(2), of "int m"] obtain ops where
    o: "get_partitions (outputs tx) (int m) = Some (Inr ops)" by blast
  have mi: "m \<le> length (inputs tx)" and mo: "m \<le> length (outputs tx)"
    by (simp_all add: m_def)
  have b: "k \<noteq> 0 \<and>
      (\<exists>b. group_partitions_by_size ips k = Some b \<and> (\<forall>p \<in> set b. length p = k)) \<and>
      (\<exists>b. group_partitions_by_size ops k = Some b \<and> (\<forall>p \<in> set b. length p = k))"
    if "k \<in> set [2..<m + 1]" for k
  proof -
    have k: "1 \<le> k" "k \<le> m" using that by auto
    show ?thesis
      using bucket_exists [OF assms(1) k mi i] bucket_exists [OF assms(2) k mo o] k(1)
      by simp
  qed
  have e: "\<forall>ap \<in> set ([] :: acceptable_partition list). paired ap" by simp
  from sizes_loop_returns [of "[2..<m + 1]" "group_partitions_by_size ips"
         "group_partitions_by_size ops" "[]" "fee tx"] b e
  obtain aps where
    s: "sizes_loop (group_partitions_by_size ips) (group_partitions_by_size ops) (fee tx)
          [2..<m + 1] [] = Inr aps" and p: "\<forall>ap \<in> set aps. paired ap"
    by blast
  have "get_acceptable_partitions tx = Some (Inr aps)"
    using i o s unfolding get_acceptable_partitions_def Let_def m_def by simp
  then show ?thesis using p by blast
qed

lemma get_acceptable_partitions_diverges:
  assumes "inputs tx = [] \<or> outputs tx = []"
  shows "get_acceptable_partitions tx = None"
proof (cases "inputs tx = []")
  case True
  then show ?thesis
    by (simp add: get_acceptable_partitions_def Let_def get_partitions_empty)
next
  case False
  then have o: "outputs tx = []" using assms by simp
  from get_partitions_enum [OF False, of 0] obtain ips where
    "get_partitions (inputs tx) 0 = Some (Inr ips)" by blast
  then show ?thesis
    using o by (simp add: get_acceptable_partitions_def Let_def get_partitions_empty)
qed

lemma min_flow_loop_returns:
  "\<forall>i \<in> set is. i < length ip \<and> i < length opn \<Longrightarrow>
   \<exists>m. min_flow_loop ip opn is m0 = Inr m"
  by (induction "is" arbitrary: m0) (auto simp: Let_def)

lemma delta_loop_returns:
  "\<forall>ap \<in> set aps. paired ap \<Longrightarrow> \<exists>d. delta_loop aps d0 = Inr d"
proof (induction aps arbitrary: d0)
  case Nil
  show ?case by simp
next
  case (Cons ap aps)
  obtain ip opn where ap: "ap = (ip, opn)" by (cases ap)
  have p: "length ip = length opn" "ip \<noteq> []" using Cons.prems ap by (simp_all add: paired_def)
  then have ne: "opn \<noteq> []" by auto
  have "\<forall>i \<in> set [1..<length ip]. i < length ip \<and> i < length opn" using p(1) by simp
  from min_flow_loop_returns [OF this] obtain m where
    m: "min_flow_loop ip opn [1..<length ip]
          (sum_list (map snd (ip ! 0)) - sum_list (map snd (opn ! 0))) = Inr m"
    by blast
  have rest: "\<forall>ap \<in> set aps. paired ap" using Cons.prems by simp
  from Cons.IH [OF rest, of "if m > d0 then m else d0"] show ?case
    unfolding ap using p(2) ne m by simp
qed

lemma remove_small_outputs_returns:
  assumes "inputs tx \<noteq> []" and "outputs tx \<noteq> []"
  shows "\<exists>aps delta. get_acceptable_partitions tx = Some (Inr aps) \<and>
           delta_loop aps 0 = Inr delta \<and>
           remove_small_outputs tx =
             Some (Inr (tx\<lparr>outputs := filter (\<lambda>x. x \<notin> set (marked_outputs delta tx))
                                        (sort_key sort_key_value (outputs tx)),
                          fee := fee tx + sum_list (map snd (marked_outputs delta tx))\<rparr>))"
proof -
  from get_acceptable_partitions_returns [OF assms] obtain aps where
    a: "get_acceptable_partitions tx = Some (Inr aps)" and p: "\<forall>ap \<in> set aps. paired ap"
    by blast
  from delta_loop_returns [OF p, of 0] obtain delta where d: "delta_loop aps 0 = Inr delta"
    by blast
  have "remove_small_outputs tx =
             Some (Inr (tx\<lparr>outputs := filter (\<lambda>x. x \<notin> set (marked_outputs delta tx))
                                        (sort_key sort_key_value (outputs tx)),
                          fee := fee tx + sum_list (map snd (marked_outputs delta tx))\<rparr>))"
    using a d by (simp add: remove_small_outputs_def marked_outputs_eq mark_outputs_acc Let_def)
  then show ?thesis using a d by blast
qed

lemma simplify_diverges:
  assumes "inputs (remove_small_inputs tx) = [] \<or> outputs tx = []"
  shows "simplify tx = None"
proof -
  have "get_acceptable_partitions (remove_small_inputs tx) = None"
    by (rule get_acceptable_partitions_diverges)
       (use assms in \<open>simp add: remove_small_inputs_outputs\<close>)
  then show ?thesis by (simp add: simplify_def remove_small_outputs_def)
qed

lemma remove_small_inputs_tx_id: "tx_id (remove_small_inputs tx) = tx_id tx"
  by (simp add: remove_small_inputs_def Let_def split: prod.splits)

lemma mark_inputs_le:
  "\<forall>x \<in> set xs. 0 \<le> snd x \<Longrightarrow> e \<in> set (fst (mark_inputs xs f [])) \<Longrightarrow> snd e \<le> f"
proof (induction xs arbitrary: f)
  case Nil
  then show ?case by simp
next
  case (Cons x xs)
  show ?case
  proof (cases "snd x \<le> f")
    case True
    with Cons.prems(2) have "e = x \<or> e \<in> set (fst (mark_inputs xs (f - snd x) []))"
      by (simp add: mark_inputs_Cons del: mark_inputs.simps(2))
    then show ?thesis
    proof
      assume "e = x"
      then show ?thesis using True by simp
    next
      assume "e \<in> set (fst (mark_inputs xs (f - snd x) []))"
      from Cons.IH [OF _ this] Cons.prems(1) have "snd e \<le> f - snd x" by simp
      moreover have "0 \<le> snd x" using Cons.prems(1) by simp
      ultimately show ?thesis by linarith
    qed
  next
    case False
    with Cons.prems(2) show ?thesis
      by (simp add: mark_inputs_Cons del: mark_inputs.simps(2))
  qed
qed

lemma remove_small_inputs_keeps:
  assumes "\<forall>x \<in> set (inputs tx). 0 \<le> snd x" and "e \<in> set (inputs tx)" and "fee tx < snd e"
  shows "e \<in> set (inputs (remove_small_inputs tx))"
proof -
  have "\<forall>x \<in> set (sort_key sort_key_value (inputs tx)). 0 \<le> snd x" using assms(1) by simp
  from mark_inputs_le [OF this, of e "fee tx"] assms(3) have "e \<notin> set (marked_inputs tx)"
    unfolding marked_inputs_def by fastforce
  then show ?thesis using assms(2) by (simp add: remove_small_inputs_inputs)
qed

text \<open>
  Claim C1, as amended. For every transaction that keeps at least one input after
  \<open>remove_small_inputs\<close> and has at least one output, \<open>simplify\<close> returns, and what it
  returns is \<open>None\<close>. It has applied \<open>remove_small_inputs\<close> and then
  \<open>remove_small_outputs\<close> to the caller's transaction in place: the transaction then
  holds the sorted inputs that equal no marked input, the sorted outputs that equal no
  output marked for the \<open>delta\<close> of the input-reduced transaction, and the fee less
  the marked inputs plus the marked outputs. \<open>untangle\<close> goes on with that transaction.
\<close>

theorem simplify_in_place:
  assumes "inputs (remove_small_inputs tx) \<noteq> []" and "outputs tx \<noteq> []"
  shows "\<exists>aps delta tx'.
           get_acceptable_partitions (remove_small_inputs tx) = Some (Inr aps) \<and>
           delta_loop aps 0 = Inr delta \<and>
           remove_small_outputs (remove_small_inputs tx) = Some (Inr tx') \<and>
           simplify tx = Some (Inr (ReturnsNone, tx')) \<and>
           tx' = \<lparr>tx_id = tx_id tx,
                  inputs = filter (\<lambda>x. x \<notin> set (marked_inputs tx))
                             (sort_key sort_key_value (inputs tx)),
                  outputs = filter (\<lambda>x. x \<notin> set (marked_outputs delta (remove_small_inputs tx)))
                              (sort_key sort_key_value (outputs tx)),
                  fee = fee tx - sum_list (map snd (marked_inputs tx))
                          + sum_list (map snd (marked_outputs delta (remove_small_inputs tx)))\<rparr> \<and>
           untangle tx = get_acceptable_partitions tx'"
proof -
  let ?t = "remove_small_inputs tx"
  have o: "outputs ?t \<noteq> []" using assms(2) by (simp add: remove_small_inputs_outputs)
  from remove_small_outputs_returns [OF assms(1) o] obtain aps delta where
    a: "get_acceptable_partitions ?t = Some (Inr aps)" and d: "delta_loop aps 0 = Inr delta"
    and r: "remove_small_outputs ?t =
             Some (Inr (?t\<lparr>outputs := filter (\<lambda>x. x \<notin> set (marked_outputs delta ?t))
                                        (sort_key sort_key_value (outputs ?t)),
                          fee := fee ?t + sum_list (map snd (marked_outputs delta ?t))\<rparr>))"
    by blast
  let ?r = "?t\<lparr>outputs := filter (\<lambda>x. x \<notin> set (marked_outputs delta ?t))
                                        (sort_key sort_key_value (outputs ?t)),
                          fee := fee ?t + sum_list (map snd (marked_outputs delta ?t))\<rparr>"
  have s: "simplify tx = Some (Inr (ReturnsNone, ?r))" using r by (simp add: simplify_def)
  have u: "untangle tx = get_acceptable_partitions ?r" using s by (simp add: untangle_def)
  have eq: "?r = \<lparr>tx_id = tx_id tx,
                  inputs = filter (\<lambda>x. x \<notin> set (marked_inputs tx))
                             (sort_key sort_key_value (inputs tx)),
                  outputs = filter (\<lambda>x. x \<notin> set (marked_outputs delta ?t))
                              (sort_key sort_key_value (outputs tx)),
                  fee = fee tx - sum_list (map snd (marked_inputs tx))
                          + sum_list (map snd (marked_outputs delta ?t))\<rparr>"
    by (rule transaction.equality)
       (simp_all add: remove_small_inputs_tx_id remove_small_inputs_inputs
          remove_small_inputs_outputs remove_small_inputs_fee)
  show ?thesis using a d r s u unfolding eq by blast
qed

lemma steps_do_not_commute:
  "remove_small_outputs (remove_small_inputs dusty) =
     Some (Inr \<lparr>tx_id = ''t3'', inputs = [(''a2'', 12), (''a1'', 20)],
                outputs = [(''d'', 2), (''b2'', 10), (''b1'', 18)], fee = 2\<rparr>) \<and>
   map_option (map_sum id remove_small_inputs) (remove_small_outputs dusty) =
     Some (Inr \<lparr>tx_id = ''t3'', inputs = [(''a2'', 12), (''a1'', 20)],
                outputs = [(''b2'', 10), (''b1'', 18)], fee = 4\<rparr>)"
  unfolding dusty_def by code_simp

theorem simplify_in_place_witness:
  "simplify dusty =
     Some (Inr (ReturnsNone,
                \<lparr>tx_id = ''t3'', inputs = [(''a2'', 12), (''a1'', 20)],
                  outputs = [(''d'', 2), (''b2'', 10), (''b1'', 18)], fee = 2\<rparr>)) \<and>
   untangle dusty =
     Some (Inr [([[(''a2'', 12)], [(''a1'', 20)]], [[(''d'', 2), (''b2'', 10)], [(''b1'', 18)]]),
                ([[(''a2'', 12)], [(''a1'', 20)]], [[(''b2'', 10)], [(''d'', 2), (''b1'', 18)]])])"
proof -
  have h1: "inputs (remove_small_inputs dusty) \<noteq> []"
    unfolding dusty_def by code_simp
  have h2: "outputs dusty \<noteq> []"
    by (simp add: dusty_def)
  from simplify_in_place [OF h1 h2] obtain tx' where
    r: "remove_small_outputs (remove_small_inputs dusty) = Some (Inr tx')"
    and s: "simplify dusty = Some (Inr (ReturnsNone, tx'))"
    and u: "untangle dusty = get_acceptable_partitions tx'"
    by blast
  have e: "remove_small_outputs (remove_small_inputs dusty) =
     Some (Inr \<lparr>tx_id = ''t3'', inputs = [(''a2'', 12), (''a1'', 20)],
                outputs = [(''d'', 2), (''b2'', 10), (''b1'', 18)], fee = 2\<rparr>)"
    unfolding dusty_def by code_simp
  have t: "tx' = \<lparr>tx_id = ''t3'', inputs = [(''a2'', 12), (''a1'', 20)],
                outputs = [(''d'', 2), (''b2'', 10), (''b1'', 18)], fee = 2\<rparr>"
    using r e by simp
  have g: "get_acceptable_partitions
             \<lparr>tx_id = ''t3'', inputs = [(''a2'', 12), (''a1'', 20)],
               outputs = [(''d'', 2), (''b2'', 10), (''b1'', 18)], fee = 2\<rparr> =
     Some (Inr [([[(''a2'', 12)], [(''a1'', 20)]], [[(''d'', 2), (''b2'', 10)], [(''b1'', 18)]]),
                ([[(''a2'', 12)], [(''a1'', 20)]], [[(''b2'', 10)], [(''d'', 2), (''b1'', 18)]])])"
    by code_simp
  show ?thesis using s u g unfolding t by simp
qed

text \<open>
  Claim C1 as stated fails: on \<open>figure6\<close> the call returns \<open>None\<close>, not the reduced
  transaction, and on \<open>absorbed\<close>, whose inputs are all absorbed by the fee, the
  call does not return.
\<close>

theorem simplify_returns_none:
  "fst (projr (the (simplify figure6))) = ReturnsNone \<and> simplify absorbed = None"
proof
  show "fst (projr (the (simplify figure6))) = ReturnsNone"
    unfolding figure6_def by code_simp
  have "inputs (remove_small_inputs absorbed) = []"
    unfolding absorbed_def by code_simp
  then show "simplify absorbed = None"
    by (intro simplify_diverges) simp
qed

text \<open>
  Claim C10. Both pruning steps delete by value: the inputs kept are the sorted inputs
  that equal no marked entry, so every copy of a marked entry \<open>e\<close> is gone, while the fee
  falls by the values of the marked entries only. On a transaction with at least one
  input and one output \<open>remove_small_outputs\<close> returns; it marks every sorted output
  of value at most \<open>delta\<close>, keeps the sorted outputs that equal no marked entry and
  raises the fee by the values of the marked entries.
\<close>

theorem dust_removed_by_value:
  "inputs (remove_small_inputs tx) =
     filter (\<lambda>x. x \<notin> set (marked_inputs tx)) (sort_key sort_key_value (inputs tx)) \<and>
   (e \<in> set (marked_inputs tx) \<longrightarrow> e \<notin> set (inputs (remove_small_inputs tx))) \<and>
   fee (remove_small_inputs tx) = fee tx - sum_list (map snd (marked_inputs tx)) \<and>
   (inputs tx \<noteq> [] \<and> outputs tx \<noteq> [] \<longrightarrow>
      (\<exists>aps delta tx'. get_acceptable_partitions tx = Some (Inr aps) \<and>
         delta_loop aps 0 = Inr delta \<and>
         remove_small_outputs tx = Some (Inr tx') \<and>
         marked_outputs delta tx =
           filter (\<lambda>x. snd x \<le> delta) (sort_key sort_key_value (outputs tx)) \<and>
         outputs tx' = filter (\<lambda>x. x \<notin> set (marked_outputs delta tx))
                         (sort_key sort_key_value (outputs tx)) \<and>
         (e \<in> set (marked_outputs delta tx) \<longrightarrow> e \<notin> set (outputs tx')) \<and>
         fee tx' = fee tx + sum_list (map snd (marked_outputs delta tx))))"
proof (intro conjI impI)
  show "inputs (remove_small_inputs tx) =
     filter (\<lambda>x. x \<notin> set (marked_inputs tx)) (sort_key sort_key_value (inputs tx))"
    by (rule remove_small_inputs_inputs)
  show "e \<notin> set (inputs (remove_small_inputs tx))" if "e \<in> set (marked_inputs tx)"
    using that by (simp add: remove_small_inputs_inputs)
  show "fee (remove_small_inputs tx) = fee tx - sum_list (map snd (marked_inputs tx))"
    by (rule remove_small_inputs_fee)
  show "\<exists>aps delta tx'. get_acceptable_partitions tx = Some (Inr aps) \<and>
         delta_loop aps 0 = Inr delta \<and>
         remove_small_outputs tx = Some (Inr tx') \<and>
         marked_outputs delta tx =
           filter (\<lambda>x. snd x \<le> delta) (sort_key sort_key_value (outputs tx)) \<and>
         outputs tx' = filter (\<lambda>x. x \<notin> set (marked_outputs delta tx))
                         (sort_key sort_key_value (outputs tx)) \<and>
         (e \<in> set (marked_outputs delta tx) \<longrightarrow> e \<notin> set (outputs tx')) \<and>
         fee tx' = fee tx + sum_list (map snd (marked_outputs delta tx))"
    if "inputs tx \<noteq> [] \<and> outputs tx \<noteq> []"
  proof -
    from that have i: "inputs tx \<noteq> []" and o: "outputs tx \<noteq> []" by simp_all
    from remove_small_outputs_returns [OF i o] obtain aps delta where
      a: "get_acceptable_partitions tx = Some (Inr aps)" and d: "delta_loop aps 0 = Inr delta"
      and r: "remove_small_outputs tx =
             Some (Inr (tx\<lparr>outputs := filter (\<lambda>x. x \<notin> set (marked_outputs delta tx))
                                        (sort_key sort_key_value (outputs tx)),
                          fee := fee tx + sum_list (map snd (marked_outputs delta tx))\<rparr>))"
      by blast
    let ?r = "tx\<lparr>outputs := filter (\<lambda>x. x \<notin> set (marked_outputs delta tx))
                                        (sort_key sort_key_value (outputs tx)),
                          fee := fee tx + sum_list (map snd (marked_outputs delta tx))\<rparr>"
    have "outputs ?r = filter (\<lambda>x. x \<notin> set (marked_outputs delta tx))
                         (sort_key sort_key_value (outputs tx))"
      and "e \<in> set (marked_outputs delta tx) \<longrightarrow> e \<notin> set (outputs ?r)"
      and "fee ?r = fee tx + sum_list (map snd (marked_outputs delta tx))"
      by simp_all
    then show ?thesis using a d r marked_outputs_eq [of delta tx] by blast
  qed
qed

theorem dust_removed_by_value_witness:
  "marked_inputs twin_inputs = [(''a'', 1)] \<and>
   count_list (inputs twin_inputs) (''a'', 1) = 2 \<and>
   (''a'', 1) \<notin> set (inputs (remove_small_inputs twin_inputs)) \<and>
   fee (remove_small_inputs twin_inputs) = fee twin_inputs - 1 \<and>
   count_list (outputs twin_outputs) (''d'', 1) = 2 \<and>
   (\<exists>tx'. remove_small_outputs twin_outputs = Some (Inr tx') \<and>
      outputs tx' = [(''b2'', 9), (''b1'', 19)] \<and>
      (''d'', 1) \<notin> set (outputs tx') \<and>
      fee tx' = fee twin_outputs + 2)"
proof -
  have m: "marked_inputs twin_inputs = [(''a'', 1)]"
    unfolding twin_inputs_def by code_simp
  have c: "count_list (inputs twin_inputs) (''a'', 1) = 2"
    unfolding twin_inputs_def by code_simp
  have c': "count_list (outputs twin_outputs) (''d'', 1) = 2"
    unfolding twin_outputs_def by code_simp
  have i: "(''a'', 1) \<notin> set (inputs (remove_small_inputs twin_inputs)) \<and>
           fee (remove_small_inputs twin_inputs) = fee twin_inputs - 1"
    using dust_removed_by_value [of twin_inputs "(''a'', 1)"] m by simp
  have dom: "inputs twin_outputs \<noteq> [] \<and> outputs twin_outputs \<noteq> []"
    by (simp add: twin_outputs_def)
  from dust_removed_by_value [of twin_outputs "(''d'', 1)"] dom obtain aps delta tx' where
    a: "get_acceptable_partitions twin_outputs = Some (Inr aps)"
    and d: "delta_loop aps 0 = Inr delta"
    and r: "remove_small_outputs twin_outputs = Some (Inr tx')"
    and o: "outputs tx' = filter (\<lambda>x. x \<notin> set (marked_outputs delta twin_outputs))
                         (sort_key sort_key_value (outputs twin_outputs))"
    and f: "fee tx' = fee twin_outputs + sum_list (map snd (marked_outputs delta twin_outputs))"
    by blast
  have "delta_loop (projr (the (get_acceptable_partitions twin_outputs))) 0 = Inr 1"
    unfolding twin_outputs_def by code_simp
  then have d1: "delta = 1" using a d by simp
  have mo: "marked_outputs 1 twin_outputs = [(''d'', 1), (''d'', 1)]"
    unfolding twin_outputs_def by code_simp
  have so: "filter (\<lambda>x. x \<notin> set [(''d'', 1 :: int), (''d'', 1)])
              (sort_key sort_key_value (outputs twin_outputs)) = [(''b2'', 9), (''b1'', 19)]"
    unfolding twin_outputs_def by code_simp
  have o': "outputs tx' = [(''b2'', 9), (''b1'', 19)]"
    using o unfolding d1 mo so .
  have f': "fee tx' = fee twin_outputs + 2"
    using f unfolding d1 mo by simp
  have "\<exists>tx'. remove_small_outputs twin_outputs = Some (Inr tx') \<and>
      outputs tx' = [(''b2'', 9), (''b1'', 19)] \<and>
      (''d'', 1) \<notin> set (outputs tx') \<and>
      fee tx' = fee twin_outputs + 2"
    using r o' f' by simp
  then show ?thesis using m c c' i by blast
qed

subsection \<open>untangle\<close>

text \<open>
  Claim C8. On \<open>figure6\<close>, \<open>untangle\<close> returns one acceptable partition: its second
  pair groups \<open>a1\<close> with \<open>b1\<close>, its first pair groups \<open>a2\<close> with \<open>b3\<close> and \<open>b2\<close>.
\<close>

theorem untangle_figure6:
  "untangle figure6 =
     Some (Inr [([[(''a2'', 10)], [(''a1'', 20)]],
                 [[(''b3'', 3), (''b2'', 7)], [(''b1'', 19)]])])"
  unfolding figure6_def by code_simp

end
